theory Spec2Isabelle
  imports Complex_Main
begin

section \<open>Progress bar counters of prompt_toolkit, embedded in HOL\<close>

text \<open>
  The development follows \<^verbatim>\<open>shortcuts/progress_bar/base.py\<close> and
  \<^verbatim>\<open>output/defaults.py\<close>. Python objects that are mutated through several
  references (the counters held by the registry and by their generators) live in a store
  indexed by references. Every \<^verbatim>\<open>raise\<close> is a value \<open>Inl e\<close>. A Python float is
  taken as the real number it stands for, without rounding. A \<^verbatim>\<open>datetime\<close> and a
  \<^verbatim>\<open>timedelta\<close> are whole numbers of microseconds, as Python stores them, and a
  \<^verbatim>\<open>timedelta\<close> has its range of 999999999 days on either side.
\<close>

subsection \<open>Exceptions and data sources\<close>

datatype exn =
    TypeError
  | ValueError
  | AttributeError
  | ZeroDivisionError
  | OverflowError
  | IndexError
  | GenericException
  | SourceError nat

text \<open>
  What one \<^verbatim>\<open>next()\<close> on the iterator of the data source gives: an item, the end of
  the data, or an exception of the source's own.
\<close>

datatype 'a pull = Item 'a | Exhausted | Raises exn

text \<open>
  An iterable: what \<^verbatim>\<open>len()\<close> answers on it (\<open>Inl TypeError\<close> when it has no
  length), and the result of the k-th pull on an iterator made from it. The source may be
  infinite (a feed that never answers \<open>Exhausted\<close>).
\<close>

datatype 'a iterable = Iterable (len_of: "exn + int") (feed: "nat \<Rightarrow> 'a pull")

definition of_list :: "'a list \<Rightarrow> 'a iterable" where
  "of_list xs = Iterable (Inr (int (length xs)))
     (\<lambda>k. if k < length xs then Item (xs ! k) else Exhausted)"

definition of_generator :: "(nat \<Rightarrow> 'a pull) \<Rightarrow> 'a iterable" where
  "of_generator f = Iterable (Inl TypeError) f"

definition py_len :: "'a iterable option \<Rightarrow> exn + int" where
  "py_len d = (case d of None \<Rightarrow> Inl TypeError | Some it \<Rightarrow> len_of it)"

definition py_truediv :: "real \<Rightarrow> real \<Rightarrow> exn + real" where
  "py_truediv a b = (if b = 0 then Inl ZeroDivisionError else Inr (a / b))"

text \<open>
  Arithmetic of \<^verbatim>\<open>timedelta\<close> with a float, as the datetime module does it: the
  exact result in microseconds is rounded to the nearest integer, ties to the even one,
  and a result outside the range raises \<^verbatim>\<open>OverflowError\<close>.
\<close>

definition divide_nearest :: "real \<Rightarrow> int" where
  "divide_nearest x =
     (if x - of_int \<lfloor>x\<rfloor> < 1 / 2 then \<lfloor>x\<rfloor>
      else if 1 / 2 < x - of_int \<lfloor>x\<rfloor> then \<lfloor>x\<rfloor> + 1
      else if even \<lfloor>x\<rfloor> then \<lfloor>x\<rfloor> else \<lfloor>x\<rfloor> + 1)"

definition timedelta_in_range :: "int \<Rightarrow> bool" where
  "timedelta_in_range us =
     (- 999999999 * 86400000000 \<le> us \<and> us < 1000000000 * 86400000000)"

definition microseconds_to_delta :: "int \<Rightarrow> exn + int" where
  "microseconds_to_delta us = (if timedelta_in_range us then Inr us else Inl OverflowError)"

definition timedelta_mul :: "int \<Rightarrow> real \<Rightarrow> exn + int" where
  "timedelta_mul us f = microseconds_to_delta (divide_nearest (of_int us * f))"

definition timedelta_truediv :: "int \<Rightarrow> real \<Rightarrow> exn + int" where
  "timedelta_truediv us f =
     (if f = 0 then Inl ZeroDivisionError
      else microseconds_to_delta (divide_nearest (of_int us / f)))"

definition exn_bind :: "exn + 'a \<Rightarrow> ('a \<Rightarrow> exn + 'b) \<Rightarrow> exn + 'b" where
  "exn_bind m f = (case m of Inl e \<Rightarrow> Inl e | Inr v \<Rightarrow> f v)"

subsection \<open>ProgressBarCounter\<close>

record 'a counter =
  start_time :: int
  data :: "'a iterable option"
  current :: int
  label :: string
  remove_when_done :: bool
  is_done :: bool
  total :: "int option"

text \<open>
  \<^verbatim>\<open>ProgressBarCounter.__init__\<close>; \<open>now\<close> is what \<^verbatim>\<open>datetime.now()\<close> returns.
  Only the \<^verbatim>\<open>TypeError\<close> of \<^verbatim>\<open>len\<close> is caught.
\<close>

definition ProgressBarCounter_init ::
  "int \<Rightarrow> 'a iterable option \<Rightarrow> string \<Rightarrow> bool \<Rightarrow> int option \<Rightarrow> exn + 'a counter" where
  "ProgressBarCounter_init now d lbl rwd tot =
     (let c = \<lparr>start_time = now, data = d, current = 0, label = lbl,
                remove_when_done = rwd, is_done = False, total = None\<rparr>
      in case tot of
           None \<Rightarrow>
             (case py_len d of
                Inr n \<Rightarrow> Inr (c\<lparr>total := Some n\<rparr>)
              | Inl e \<Rightarrow> if e = TypeError then Inr (c\<lparr>total := None\<rparr>) else Inl e)
         | Some t \<Rightarrow> Inr (c\<lparr>total := Some t\<rparr>))"

text \<open>The statement \<^verbatim>\<open>self.current += 1\<close> of the iteration wrapper.\<close>

definition advance :: "'a counter \<Rightarrow> 'a counter" where
  "advance c = c\<lparr>current := current c + 1\<rparr>"

definition percentage :: "'a counter \<Rightarrow> exn + real" where
  "percentage c =
     (case total c of
        None \<Rightarrow> Inr 0
      | Some t \<Rightarrow> py_truediv (real_of_int (current c * 100)) (real_of_int (max t 1)))"

text \<open>
  \<^verbatim>\<open>time_elapsed\<close>: the difference of two \<^verbatim>\<open>datetime\<close> values, which always
  fits a \<^verbatim>\<open>timedelta\<close>.
\<close>

definition time_elapsed :: "'a counter \<Rightarrow> int \<Rightarrow> int" where
  "time_elapsed c now = now - start_time c"

text \<open>
  \<^verbatim>\<open>time_left\<close>: the property \<^verbatim>\<open>percentage\<close> is read once for the test and once
  for each of its two uses in the expression, in the order of evaluation.
\<close>

definition time_left :: "'a counter \<Rightarrow> int \<Rightarrow> exn + int option" where
  "time_left c now =
     (if total c = None then Inr None
      else exn_bind (percentage c) (\<lambda>p0.
        if p0 = 0 then Inr None
        else exn_bind (percentage c) (\<lambda>p1.
             exn_bind (timedelta_mul (time_elapsed c now) (100 - p1)) (\<lambda>m.
             exn_bind (percentage c) (\<lambda>p2.
             exn_bind (timedelta_truediv m p2) (\<lambda>r.
             Inr (Some r)))))))"

subsection \<open>ProgressBar: the registry, the render application and the signal hook\<close>

text \<open>
  Modelled from the spec: the render application (\<^verbatim>\<open>prompt_toolkit.application\<close>) is
  not part of the sources at hand. Its \<^verbatim>\<open>is_running\<close> flag holds while its run loop
  executes, and \<^verbatim>\<open>exit()\<close> requests termination; a request on an application that is
  not running fails, which is the case the caller has to guard against.
\<close>

datatype app_status = NotStarted | Running | Exited

record application =
  app_status :: app_status
  exit_requested :: bool

definition is_running :: "application \<Rightarrow> bool" where
  "is_running a = (app_status a = Running)"

definition Application_exit :: "application \<Rightarrow> exn + application" where
  "Application_exit a =
     (if is_running a then Inr (a\<lparr>exit_requested := True\<rparr>) else Inl GenericException)"

text \<open>
  The handler of SIGWINCH as \<^verbatim>\<open>signal.getsignal\<close> reports it. \<open>LoopNoop\<close> is the
  handler the event loop's \<^verbatim>\<open>add_signal_handler\<close> puts there. \<open>NotFromPython\<close>
  is the answer \<^verbatim>\<open>None\<close>, given for a handler that was not installed from Python.
\<close>

datatype handler = SIG_DFL | SIG_IGN | UserHandler nat | LoopNoop | NotFromPython

datatype thread_status = Started | Joined

datatype event =
    ThreadStart
  | AddSignalHandler
  | AppExit
  | RemoveSignalHandler
  | SignalSignal handler
  | ThreadJoin
  | CallSoonThreadsafe

text \<open>
  The state: the fields of the ProgressBar that the operations below touch
  (\<open>counters\<close>, \<open>app\<close>, \<open>thread\<close>, \<open>previous_winch_handler\<close>, \<open>has_sigwinch\<close>;
  \<open>app = None\<close> while the attribute is not yet assigned), the store of counter objects
  with its allocation pointer, the process's SIGWINCH handler, whether the caller's event
  loop holds a SIGWINCH callback, and the calls made to the outside, oldest first.
\<close>

record 'a state =
  counters :: "nat list"
  app :: "application option"
  thread :: "thread_status option"
  previous_winch_handler :: handler
  has_sigwinch :: bool
  store :: "nat \<Rightarrow> 'a counter"
  next_ref :: nat
  sigwinch :: handler
  loop_hook :: bool
  trace :: "event list"

text \<open>
  \<^verbatim>\<open>ProgressBar.__init__\<close>. \<open>platform_sigwinch\<close> says whether the signal module has
  SIGWINCH, which line 151 reads without a guard; \<open>h\<close> is the handler then in place.
\<close>

definition ProgressBar_init :: "bool \<Rightarrow> handler \<Rightarrow> exn + 'a state" where
  "ProgressBar_init platform_sigwinch h =
     (if \<not> platform_sigwinch then Inl AttributeError
      else Inr \<lparr>counters = [], app = None, thread = None,
                previous_winch_handler = h, has_sigwinch = False,
                store = (\<lambda>_. \<lparr>start_time = 0, data = None, current = 0, label = [],
                               remove_when_done = False, is_done = False, total = None\<rparr>),
                next_ref = 0, sigwinch = h, loop_hook = False, trace = []\<rparr>)"

text \<open>
  \<^verbatim>\<open>ProgressBar.__enter__\<close>: the application is created, the render thread started,
  and in the main thread of a platform with SIGWINCH the current handler is saved and the
  loop's callback installed.
\<close>

definition ProgressBar_enter :: "bool \<Rightarrow> bool \<Rightarrow> 'a state \<Rightarrow> 'a state" where
  "ProgressBar_enter platform_sigwinch in_main_thread s =
     (let s1 = s\<lparr>app := Some \<lparr>app_status = NotStarted, exit_requested = False\<rparr>\<rparr>;
          s2 = s1\<lparr>thread := Some Started, trace := trace s1 @ [ThreadStart]\<rparr>;
          s3 = s2\<lparr>has_sigwinch := (platform_sigwinch \<and> in_main_thread)\<rparr>
      in if has_sigwinch s3
         then s3\<lparr>previous_winch_handler := sigwinch s3,
                 sigwinch := LoopNoop, loop_hook := True,
                 trace := trace s3 @ [AddSignalHandler]\<rparr>
         else s3)"

text \<open>
  What the render thread does on its own: its application starts running, and later
  stops, whether after a request or abnormally.
\<close>

definition render_thread_step :: "app_status \<Rightarrow> 'a state \<Rightarrow> 'a state" where
  "render_thread_step st s =
     (case app s of None \<Rightarrow> s | Some a \<Rightarrow> s\<lparr>app := Some (a\<lparr>app_status := st\<rparr>)\<rparr>)"

text \<open>
  \<^verbatim>\<open>loop.remove_signal_handler\<close> resets the handler to the default when it held a
  callback and does nothing otherwise.
\<close>

definition remove_signal_handler :: "'a state \<Rightarrow> 'a state" where
  "remove_signal_handler s =
     (let s1 = s\<lparr>trace := trace s @ [RemoveSignalHandler]\<rparr>
      in if loop_hook s1 then s1\<lparr>loop_hook := False, sigwinch := SIG_DFL\<rparr> else s1)"

text \<open>
  \<^verbatim>\<open>signal.signal\<close> accepts the two special values and callables, and raises
  \<^verbatim>\<open>TypeError\<close> for \<^verbatim>\<open>None\<close>.
\<close>

definition signal_signal :: "handler \<Rightarrow> 'a state \<Rightarrow> (exn + unit) \<times> 'a state" where
  "signal_signal h s =
     (let s1 = s\<lparr>trace := trace s @ [SignalSignal h]\<rparr>
      in if h = NotFromPython then (Inl TypeError, s1) else (Inr (), s1\<lparr>sigwinch := h\<rparr>))"

text \<open>
  How a call ends: it returns, it raises, or it never returns. \<^verbatim>\<open>Thread.join\<close> returns
  once the render thread has ended: at once when its application has exited, after the
  requested exit when it runs, and never when the application has not begun to run and so
  received no request.
\<close>

datatype ending = Returns | Raised exn | Blocks

definition thread_join :: "'a state \<Rightarrow> ending \<times> 'a state" where
  "thread_join s =
     (let s1 = s\<lparr>trace := trace s @ [ThreadJoin]\<rparr>
      in case app s1 of
           None \<Rightarrow> (Returns, s1\<lparr>thread := Some Joined\<rparr>)
         | Some a \<Rightarrow>
             if app_status a = Exited \<or> (app_status a = Running \<and> exit_requested a)
             then (Returns, s1\<lparr>thread := Some Joined, app := Some (a\<lparr>app_status := Exited\<rparr>)\<rparr>)
             else (Blocks, s1))"

text \<open>\<^verbatim>\<open>ProgressBar.__exit__\<close>, statement by statement.\<close>

definition ProgressBar_exit :: "'a state \<Rightarrow> ending \<times> 'a state" where
  "ProgressBar_exit s =
     (case app s of
        None \<Rightarrow> (Raised AttributeError, s)
      | Some a \<Rightarrow>
          (case (if is_running a
                 then (case Application_exit a of
                         Inl e \<Rightarrow> Inl e
                       | Inr a' \<Rightarrow> Inr (s\<lparr>app := Some a', trace := trace s @ [AppExit]\<rparr>))
                 else Inr s) of
             Inl e \<Rightarrow> (Raised e, s)
           | Inr s1 \<Rightarrow>
               (case (if has_sigwinch s1
                      then signal_signal (previous_winch_handler s1) (remove_signal_handler s1)
                      else (Inr (), s1)) of
                  (Inl e, s2) \<Rightarrow> (Raised e, s2)
                | (Inr u, s2) \<Rightarrow>
                    if thread s2 \<noteq> None then thread_join s2 else (Returns, s2))))"

text \<open>
  \<^verbatim>\<open>ProgressBar.__call__\<close>: a counter object is allocated and its reference appended
  to the registry; the reference is what the caller gets.
\<close>

definition ProgressBar_call ::
  "'a state \<Rightarrow> int \<Rightarrow> 'a iterable option \<Rightarrow> string \<Rightarrow> bool \<Rightarrow> int option
     \<Rightarrow> (exn + nat) \<times> 'a state" where
  "ProgressBar_call s now d lbl rwd tot =
     (case ProgressBarCounter_init now d lbl rwd tot of
        Inl e \<Rightarrow> (Inl e, s)
      | Inr c \<Rightarrow>
          (Inr (next_ref s),
           s\<lparr>store := (store s)(next_ref s := c),
             next_ref := Suc (next_ref s),
             counters := counters s @ [next_ref s]\<rparr>))"

text \<open>
  \<^verbatim>\<open>ProgressBar.invalidate\<close>: reading \<^verbatim>\<open>self.app\<close> fails while the attribute is
  not assigned; otherwise the repaint is handed to the application's loop.
\<close>

definition invalidate :: "'a state \<Rightarrow> (exn + unit) \<times> 'a state" where
  "invalidate s =
     (case app s of
        None \<Rightarrow> (Inl AttributeError, s)
      | Some a \<Rightarrow> (Inr (), s\<lparr>trace := trace s @ [CallSoonThreadsafe]\<rparr>))"

subsection \<open>The iteration wrapper\<close>

text \<open>
  The \<^verbatim>\<open>finally\<close> block of \<^verbatim>\<open>__iter__\<close> for the counter at reference \<open>r\<close>.
  \<^verbatim>\<open>list.remove\<close> takes out the first occurrence and raises \<^verbatim>\<open>ValueError\<close> when
  there is none; the flag set before stays set.
\<close>

definition cleanup :: "'a state \<Rightarrow> nat \<Rightarrow> (exn + unit) \<times> 'a state" where
  "cleanup s r =
     (let s1 = s\<lparr>store := (store s)(r := (store s r)\<lparr>is_done := True\<rparr>)\<rparr>
      in if remove_when_done (store s1 r)
         then (if r \<in> set (counters s1)
               then (Inr (), s1\<lparr>counters := remove1 r (counters s1)\<rparr>)
               else (Inl ValueError, s1))
         else (Inr (), s1))"

text \<open>
  A generator made by \<^verbatim>\<open>__iter__\<close>: not yet started, suspended at the
  \<^verbatim>\<open>yield\<close> after \<open>k\<close> pulls, or finished. \<open>finally_runs\<close> is a ghost field that
  counts the executions of the \<^verbatim>\<open>finally\<close> block.
\<close>

datatype gen_status = Unstarted | Suspended nat | Finished

record gen =
  self :: nat
  status :: gen_status
  finally_runs :: nat

definition counter_iter :: "nat \<Rightarrow> gen" where
  "counter_iter r = \<lparr>self = r, status = Unstarted, finally_runs = 0\<rparr>"

datatype 'a outcome = Yield 'a | StopIteration | Propagates exn

text \<open>
  Leaving the \<^verbatim>\<open>try\<close>: the \<^verbatim>\<open>finally\<close> block runs; an exception of its own
  replaces the pending one, otherwise the pending one (if any) goes on.
\<close>

definition leave_try :: "exn option \<Rightarrow> 'a state \<Rightarrow> gen \<Rightarrow> 'a outcome \<times> 'a state \<times> gen" where
  "leave_try pending s g =
     (let (r, s') = cleanup s (self g);
          g' = g\<lparr>status := Finished, finally_runs := Suc (finally_runs g)\<rparr>
      in case r of
           Inl e' \<Rightarrow> (Propagates e', s', g')
         | Inr _ \<Rightarrow>
             (case pending of
                None \<Rightarrow> (StopIteration, s', g')
              | Some e \<Rightarrow> (Propagates e, s', g')))"

text \<open>One turn of the \<^verbatim>\<open>for item in self.data\<close> loop, at pull number \<open>k\<close>.\<close>

definition loop_turn :: "'a iterable \<Rightarrow> nat \<Rightarrow> 'a state \<Rightarrow> gen \<Rightarrow> 'a outcome \<times> 'a state \<times> gen" where
  "loop_turn d k s g =
     (case feed d k of
        Exhausted \<Rightarrow> leave_try None s g
      | Raises e \<Rightarrow> leave_try (Some e) s g
      | Item x \<Rightarrow>
          (let s1 = s\<lparr>store := (store s)(self g := advance (store s (self g)))\<rparr>;
               (r, s2) = invalidate s1
           in case r of
                Inl e \<Rightarrow> leave_try (Some e) s2 g
              | Inr _ \<Rightarrow> (Yield x, s2, g\<lparr>status := Suspended (Suc k)\<rparr>)))"

text \<open>\<^verbatim>\<open>next()\<close> on the generator.\<close>

definition gen_next :: "'a state \<Rightarrow> gen \<Rightarrow> 'a outcome \<times> 'a state \<times> gen" where
  "gen_next s g =
     (case status g of
        Finished \<Rightarrow> (StopIteration, s, g)
      | Unstarted \<Rightarrow>
          (case data (store s (self g)) of
             None \<Rightarrow> leave_try None s g
           | Some d \<Rightarrow> loop_turn d 0 s g)
      | Suspended k \<Rightarrow>
          (case data (store s (self g)) of
             None \<Rightarrow> leave_try None s g
           | Some d \<Rightarrow> loop_turn d k s g))"

text \<open>
  \<^verbatim>\<open>close()\<close> on the generator, which is also what happens when the caller's loop
  drops a suspended generator (after \<^verbatim>\<open>break\<close>, or when its body raises): a generator
  that never started just ends; in a suspended one \<^verbatim>\<open>GeneratorExit\<close> is raised at the
  \<^verbatim>\<open>yield\<close> and the \<^verbatim>\<open>finally\<close> block runs.
\<close>

definition gen_close :: "'a state \<Rightarrow> gen \<Rightarrow> (exn + unit) \<times> 'a state \<times> gen" where
  "gen_close s g =
     (case status g of
        Finished \<Rightarrow> (Inr (), s, g)
      | Unstarted \<Rightarrow> (Inr (), s, g\<lparr>status := Finished\<rparr>)
      | Suspended k \<Rightarrow>
          (let (r, s') = cleanup s (self g)
           in (r, s', g\<lparr>status := Finished, finally_runs := Suc (finally_runs g)\<rparr>)))"

text \<open>
  What a caller can do with the generator, and a run of such actions. A \<^verbatim>\<open>for\<close> loop
  is a run that starts with \<open>Next\<close>.
\<close>

datatype action = Next | Close

fun act :: "action \<Rightarrow> 'a state \<times> gen \<Rightarrow> 'a state \<times> gen" where
  "act Next (s, g) = snd (gen_next s g)"
| "act Close (s, g) = snd (gen_close s g)"

fun drive :: "action list \<Rightarrow> 'a state \<times> gen \<Rightarrow> 'a state \<times> gen" where
  "drive [] sg = sg"
| "drive (a # as) sg = drive as (act a sg)"

subsection \<open>Histories of a ProgressBar\<close>

text \<open>
  The operations that change the state, and the state after a list of them. A generator
  may be any generator: more histories than the program has, and no fewer.
\<close>

datatype 'a operation =
    Enter bool bool
  | RenderThread app_status
  | Call int "'a iterable option" string bool "int option"
  | Invalidate
  | GenNext gen
  | GenClose gen
  | Exit

fun apply_op :: "'a operation \<Rightarrow> 'a state \<Rightarrow> 'a state" where
  "apply_op (Enter platform_sigwinch in_main_thread) s =
     ProgressBar_enter platform_sigwinch in_main_thread s"
| "apply_op (RenderThread st) s = render_thread_step st s"
| "apply_op (Call now d lbl rwd tot) s = snd (ProgressBar_call s now d lbl rwd tot)"
| "apply_op Invalidate s = snd (invalidate s)"
| "apply_op (GenNext g) s = fst (snd (gen_next s g))"
| "apply_op (GenClose g) s = fst (snd (gen_close s g))"
| "apply_op Exit s = snd (ProgressBar_exit s)"

fun run :: "'a operation list \<Rightarrow> 'a state \<Rightarrow> 'a state" where
  "run [] s = s"
| "run (x # xs) s = run xs (apply_op x s)"


text \<open>
  An iteration among other activity: the steps are the caller's own actions on its
  generator and, in between, any other operations. \<open>foreign r\<close> holds of the operations
  that are not a step of another generator of the counter at \<open>r\<close>.
\<close>

datatype 'a step = Own action | Other "'a operation"

fun interleave :: "'a step list \<Rightarrow> 'a state \<times> gen \<Rightarrow> 'a state \<times> gen" where
  "interleave [] sg = sg"
| "interleave (Own a # xs) sg = interleave xs (act a sg)"
| "interleave (Other x # xs) (s, g) = interleave xs (apply_op x s, g)"

fun foreign :: "nat \<Rightarrow> 'a step \<Rightarrow> bool" where
  "foreign r (Other (GenNext g)) = (self g \<noteq> r)"
| "foreign r (Other (GenClose g)) = (self g \<noteq> r)"
| "foreign r x = True"

subsection \<open>The render control\<close>

text \<open>
  What a formatter may hand back: a plain string or some other formatted text.
  \<^verbatim>\<open>to_formatted_text\<close> and the formatter are not part of the sources at hand and are
  parameters: \<open>fmt s r width\<close> is the result of
  \<^verbatim>\<open>formatter.format(progress_bar, pr, width)\<close> for the counter at \<open>r\<close>.
\<close>

datatype 'm any_formatted_text = PlainText string | Markup 'm

definition py_getitem :: "'b list \<Rightarrow> int \<Rightarrow> exn + 'b" where
  "py_getitem xs i =
     (if 0 \<le> i \<and> i < int (length xs) then Inr (xs ! nat i)
      else if i < 0 \<and> - int (length xs) \<le> i then Inr (xs ! nat (int (length xs) + i))
      else Inl IndexError)"

record 'ft ui_content =
  get_line :: "int \<Rightarrow> exn + 'ft"
  line_count :: nat
  show_cursor :: bool

text \<open>
  The loop of \<^verbatim>\<open>create_content\<close> over the registry, with the list \<open>items\<close> it
  appends to. The second accumulator is a ghost log: one entry per call of the formatter,
  the counter it was called on and the exception whose traceback was printed, if any.
\<close>

fun format_counters ::
  "('a state \<Rightarrow> nat \<Rightarrow> int \<Rightarrow> exn + 'm any_formatted_text) \<Rightarrow> ('m any_formatted_text \<Rightarrow> 'ft)
     \<Rightarrow> 'a state \<Rightarrow> int \<Rightarrow> nat list \<Rightarrow> 'ft list \<times> (nat \<times> exn option) list
     \<Rightarrow> 'ft list \<times> (nat \<times> exn option) list" where
  "format_counters fmt to_formatted_text s width [] acc = acc"
| "format_counters fmt to_formatted_text s width (pr # prs) (items, calls) =
     (let (answer, printed) =
            (case fmt s pr width of
               Inr t \<Rightarrow> (t, None)
             | Inl e \<Rightarrow> (PlainText ''ERROR'', Some e))
      in format_counters fmt to_formatted_text s width prs
           (items @ [to_formatted_text answer], calls @ [(pr, printed)]))"

definition create_content ::
  "('a state \<Rightarrow> nat \<Rightarrow> int \<Rightarrow> exn + 'm any_formatted_text) \<Rightarrow> ('m any_formatted_text \<Rightarrow> 'ft)
     \<Rightarrow> 'a state \<Rightarrow> int \<Rightarrow> int \<Rightarrow> 'ft ui_content \<times> (nat \<times> exn option) list" where
  "create_content fmt to_formatted_text s width height =
     (let (items, calls) = format_counters fmt to_formatted_text s width (counters s) ([], [])
      in (\<lparr>get_line = py_getitem items, line_count = length items, show_cursor = False\<rparr>,
          calls))"

subsection \<open>Choice of the output backend\<close>

text \<open>
  The host as \<^verbatim>\<open>create_output\<close> sees it: the answers of \<^verbatim>\<open>is_windows()\<close>,
  \<^verbatim>\<open>is_win_vt100_enabled()\<close>, \<^verbatim>\<open>is_conemu_ansi()\<close> and
  \<^verbatim>\<open>get_term_environment_variable()\<close>, and \<^verbatim>\<open>sys.__stdout__\<close>. A stream is
  \<open>None\<close> for Python's \<^verbatim>\<open>None\<close>. The backends are the constructors called.
\<close>

record 'st host =
  is_windows :: bool
  is_win_vt100_enabled :: bool
  is_conemu_ansi :: bool
  term_environment_variable :: string
  sys_stdout :: "'st option"

datatype 'st backend =
    Windows10_Output "'st option"
  | ConEmuOutput "'st option"
  | Win32Output "'st option"
  | Vt100_Output_from_pty "'st option" string

definition py_or :: "'b option \<Rightarrow> 'b option \<Rightarrow> 'b option" where
  "py_or a b = (case a of None \<Rightarrow> b | Some x \<Rightarrow> Some x)"

definition create_output :: "'st host \<Rightarrow> 'st option \<Rightarrow> 'st backend" where
  "create_output h stdout =
     (let stdout = py_or stdout (sys_stdout h)
      in if is_windows h
         then (if is_win_vt100_enabled h then Windows10_Output stdout
               else if is_conemu_ansi h then ConEmuOutput stdout
               else Win32Output stdout)
         else Vt100_Output_from_pty stdout (term_environment_variable h))"

subsection \<open>Well-formed registries\<close>

text \<open>
  The registry never holds a reference twice, and every reference in it has been
  allocated.
\<close>

definition wf :: "'a state \<Rightarrow> bool" where
  "wf s = (distinct (counters s) \<and> list_all (\<lambda>r. r < next_ref s) (counters s))"

text \<open>A counter without data has never been advanced.\<close>

definition idle_at_zero :: "'a state \<Rightarrow> bool" where
  "idle_at_zero s = (\<forall>r. data (store s r) = None \<longrightarrow> current (store s r) = 0)"

subsection \<open>Auxiliary notions for the statements\<close>

text \<open>
  The line the render control shows for the counter at \<open>r\<close>, and the entry its call
  leaves in the log.
\<close>

definition line_of ::
  "('a state \<Rightarrow> nat \<Rightarrow> int \<Rightarrow> exn + 'm any_formatted_text) \<Rightarrow> 'a state \<Rightarrow> int \<Rightarrow> nat
     \<Rightarrow> 'm any_formatted_text" where
  "line_of fmt s width r =
     (case fmt s r width of Inr t \<Rightarrow> t | Inl e \<Rightarrow> PlainText ''ERROR'')"

definition printed_of ::
  "('a state \<Rightarrow> nat \<Rightarrow> int \<Rightarrow> exn + 'm any_formatted_text) \<Rightarrow> 'a state \<Rightarrow> int \<Rightarrow> nat
     \<Rightarrow> nat \<times> exn option" where
  "printed_of fmt s width r =
     (r, case fmt s r width of Inr t \<Rightarrow> None | Inl e \<Rightarrow> Some e)"


text \<open>What \<^verbatim>\<open>__enter__\<close> sets up for the signal and the thread.\<close>

definition hook_part :: "'a state \<Rightarrow> bool \<times> handler \<times> handler \<times> bool \<times> thread_status option" where
  "hook_part s =
     (has_sigwinch s, previous_winch_handler s, sigwinch s, loop_hook s, thread s)"

text \<open>
  The two situations of a generator after its first \<^verbatim>\<open>next()\<close>: suspended at the
  \<^verbatim>\<open>yield\<close> with the \<^verbatim>\<open>finally\<close> block not yet run and its counter in the
  registry, or finished with the block run exactly once.
\<close>

definition suspended :: "gen \<Rightarrow> bool" where
  "suspended g = (case status g of Suspended k \<Rightarrow> True | _ \<Rightarrow> False)"

definition iterating :: "nat \<Rightarrow> bool \<Rightarrow> 'a state \<times> gen \<Rightarrow> bool" where
  "iterating r rwd sg =
     (self (snd sg) = r \<and> suspended (snd sg) \<and> finally_runs (snd sg) = 0
      \<and> remove_when_done (store (fst sg) r) = rwd
      \<and> r \<in> set (counters (fst sg)) \<and> distinct (counters (fst sg)))"

definition ended :: "nat \<Rightarrow> bool \<Rightarrow> 'a state \<times> gen \<Rightarrow> bool" where
  "ended r rwd sg =
     (self (snd sg) = r \<and> status (snd sg) = Finished \<and> finally_runs (snd sg) = 1
      \<and> remove_when_done (store (fst sg) r) = rwd
      \<and> is_done (store (fst sg) r)
      \<and> (if rwd then r \<notin> set (counters (fst sg)) else r \<in> set (counters (fst sg))))"

text \<open>The counter at \<open>r\<close> and its place in the registry are the same in two states.\<close>

definition untouched :: "nat \<Rightarrow> 'a state \<Rightarrow> 'a state \<Rightarrow> bool" where
  "untouched r s t =
     (store t r = store s r \<and> (r \<in> set (counters t)) = (r \<in> set (counters s))
      \<and> next_ref t = next_ref s)"

subsection \<open>Concrete inputs\<close>

definition c25 :: "nat counter" where
  "c25 = \<lparr>start_time = 10, data = None, current = 1, label = ''job'',
           remove_when_done = False, is_done = False, total = Some 4\<rparr>"

definition big0 :: "nat counter" where
  "big0 = \<lparr>start_time = 0, data = Some (of_generator Item), current = 0, label = ''big'',
            remove_when_done = False, is_done = False, total = Some 100000000000000\<rparr>"

definition huge_range :: "nat iterable" where
  "huge_range = Iterable (Inl OverflowError) Item"

definition posix_host :: "nat host" where
  "posix_host = \<lparr>is_windows = False, is_win_vt100_enabled = False, is_conemu_ansi = False,
                  term_environment_variable = ''xterm'', sys_stdout = Some 1\<rparr>"

definition fresh_bar :: "nat state" where
  "fresh_bar = \<lparr>counters = [], app = None, thread = None,
                previous_winch_handler = SIG_DFL, has_sigwinch = False,
                store = (\<lambda>_. \<lparr>start_time = 0, data = None, current = 0, label = [],
                               remove_when_done = False, is_done = False, total = None\<rparr>),
                next_ref = 0, sigwinch = SIG_DFL, loop_hook = False, trace = []\<rparr>"

definition entered_bar :: "nat state" where
  "entered_bar = ProgressBar_enter True True fresh_bar"

definition bar1 :: "nat state" where
  "bar1 = snd (ProgressBar_call entered_bar 0 (Some (of_list [7, 8])) ''a'' True None)"

definition bar2 :: "nat state" where
  "bar2 = snd (ProgressBar_call bar1 0 None ''b'' False None)"

definition bar3 :: "nat state" where
  "bar3 = snd (ProgressBar_call bar2 0 (Some (of_generator Item)) ''c'' False None)"

definition bar1_done :: "nat state" where
  "bar1_done = fst (drive [Next, Close] (bar1, counter_iter 0))"

definition failing_fmt :: "nat state \<Rightarrow> nat \<Rightarrow> int \<Rightarrow> exn + unit any_formatted_text" where
  "failing_fmt s r width = (if r = 0 then Inl ValueError else Inr (PlainText ''fine''))"



definition once_bar :: "nat state" where
  "once_bar = snd (ProgressBar_call entered_bar 0 None ''x'' True None)"

section \<open>Properties of the metric getters\<close>

lemma percentage_value:
  "percentage c =
     Inr (case total c of None \<Rightarrow> 0
          | Some t \<Rightarrow> real_of_int (current c * 100) / real_of_int (max t 1))"
proof (cases "total c")
  case None
  then show ?thesis by (simp add: percentage_def)
next
  case (Some t)
  have "real_of_int (max t 1) \<noteq> 0" by simp
  with Some show ?thesis by (simp add: percentage_def py_truediv_def)
qed

lemma time_left_value:
  assumes "percentage c = Inr p"
  shows "time_left c now =
     (if total c = None \<or> p = 0 then Inr None
      else if timedelta_in_range (divide_nearest (of_int (time_elapsed c now) * (100 - p)))
              \<and> timedelta_in_range
                   (divide_nearest
                      (of_int (divide_nearest (of_int (time_elapsed c now) * (100 - p))) / p))
           then Inr (Some (divide_nearest
                      (of_int (divide_nearest (of_int (time_elapsed c now) * (100 - p))) / p)))
           else Inl OverflowError)"
  using assms
  by (simp add: time_left_def exn_bind_def timedelta_mul_def timedelta_truediv_def
        microseconds_to_delta_def)

lemma current_funpow_advance: "current ((advance ^^ n) c) = current c + int n"
  by (induction n) (simp_all add: advance_def)

lemma total_funpow_advance: "total ((advance ^^ n) c) = total c"
  by (induction n) (simp_all add: advance_def)

lemma percentage_c25: "percentage c25 = Inr 25"
  by (simp add: c25_def percentage_def py_truediv_def)

lemma time_left_c25: "time_left c25 16 = Inr (Some 18)"
  using time_left_value [OF percentage_c25, of 16]
  by (simp add: c25_def time_elapsed_def divide_nearest_def timedelta_in_range_def)

lemma percentage_big: "percentage (advance big0) = Inr (1 / 1000000000000)"
  by (simp add: big0_def advance_def percentage_def py_truediv_def)

lemma time_left_big: "time_left (advance big0) 1000000 = Inl OverflowError"
proof -
  have e: "time_elapsed (advance big0) 1000000 = 1000000"
    by (simp add: time_elapsed_def big0_def advance_def)
  have t: "total (advance big0) \<noteq> None"
    by (simp add: big0_def advance_def)
  have m: "divide_nearest (real_of_int 1000000 * (100 - 1 / 1000000000000)) = 100000000"
    by (simp add: divide_nearest_def)
  have q: "divide_nearest (real_of_int 100000000 / (1 / 1000000000000))
             = 100000000000000000000"
    by (simp add: divide_nearest_def)
  have r: "\<not> timedelta_in_range 100000000000000000000"
    by (simp add: timedelta_in_range_def)
  from time_left_value [OF percentage_big, of 1000000] t
  show ?thesis
    by (simp only: e m q r) simp
qed

text \<open>
  C2, as stated, fails: the estimate is a \<^verbatim>\<open>timedelta\<close> and can leave its range.
  A counter with total \<open>10^14\<close> and one item done after one second has an estimate of
  \<open>10^20\<close> microseconds, beyond 999999999 days, and \<^verbatim>\<open>time_left\<close> raises
  OverflowError.
\<close>

theorem time_left_unknown_or_estimate_counterexample:
  "ProgressBarCounter_init 0 (Some (of_generator Item)) ''big'' False (Some 100000000000000)
     = Inr big0
   \<and> current (advance big0) = 1
   \<and> time_elapsed (advance big0) 1000000 = 1000000
   \<and> time_left (advance big0) 1000000 = Inl OverflowError"
proof -
  have "ProgressBarCounter_init 0 (Some (of_generator Item)) ''big'' False
          (Some 100000000000000) = Inr big0"
    by (simp add: ProgressBarCounter_init_def big0_def)
  moreover have "current (advance big0) = 1"
    by (simp add: big0_def advance_def)
  moreover have "time_elapsed (advance big0) 1000000 = 1000000"
    by (simp add: time_elapsed_def big0_def advance_def)
  ultimately show ?thesis using time_left_big by blast
qed

text \<open>
  C2, amended. The getter \<open>time_left\<close> answers \<open>None\<close> (unknown) exactly when the total
  is unknown or the percentage is 0, and never a duration of zero in its place. Otherwise
  it computes \<open>elapsed * (100 - percentage) / percentage\<close> in \<^verbatim>\<open>timedelta\<close>
  arithmetic, each of the two operations rounded to the microsecond, and answers the
  result whenever the product and the quotient are within the range of a
  \<^verbatim>\<open>timedelta\<close>; it never divides by zero, and OverflowError outside that range is
  the only exception it has.
\<close>

theorem time_left_unknown_or_estimate:
  "\<exists>p. percentage c = Inr p
     \<and> (total c = None \<or> p = 0 \<longrightarrow> time_left c now = Inr None)
     \<and> (total c \<noteq> None \<and> p \<noteq> 0 \<longrightarrow>
          time_left c now \<noteq> Inr None
          \<and> time_left c now =
              (if timedelta_in_range
                    (divide_nearest (of_int (time_elapsed c now) * (100 - p)))
                  \<and> timedelta_in_range
                      (divide_nearest
                         (of_int (divide_nearest (of_int (time_elapsed c now) * (100 - p)))
                            / p))
               then Inr (Some (divide_nearest
                         (of_int (divide_nearest (of_int (time_elapsed c now) * (100 - p)))
                            / p)))
               else Inl OverflowError))"
proof -
  obtain p where p: "percentage c = Inr p"
    using percentage_value [of c] by blast
  have a: "total c = None \<or> p = 0 \<longrightarrow> time_left c now = Inr None"
    using time_left_value [OF p, of now] by simp
  have b: "total c \<noteq> None \<and> p \<noteq> 0 \<longrightarrow>
          time_left c now \<noteq> Inr None
          \<and> time_left c now =
              (if timedelta_in_range
                    (divide_nearest (of_int (time_elapsed c now) * (100 - p)))
                  \<and> timedelta_in_range
                      (divide_nearest
                         (of_int (divide_nearest (of_int (time_elapsed c now) * (100 - p)))
                            / p))
               then Inr (Some (divide_nearest
                         (of_int (divide_nearest (of_int (time_elapsed c now) * (100 - p)))
                            / p)))
               else Inl OverflowError)"
    using time_left_value [OF p, of now] by simp
  from p a b show ?thesis by blast
qed

theorem time_left_unknown_or_estimate_witness:
  "percentage c25 = Inr 25 \<and> time_left c25 16 = Inr (Some 18)
   \<and> time_left (c25\<lparr>current := 0\<rparr>) 16 = Inr None
   \<and> time_left (c25\<lparr>total := None\<rparr>) 16 = Inr None"
proof -
  have p0: "percentage (c25\<lparr>current := 0\<rparr>) = Inr 0"
    by (simp add: c25_def percentage_def py_truediv_def)
  have pn: "percentage (c25\<lparr>total := None\<rparr>) = Inr 0"
    by (simp add: c25_def percentage_def py_truediv_def)
  from time_left_unknown_or_estimate [of "c25\<lparr>current := 0\<rparr>" 16] p0
  have a: "time_left (c25\<lparr>current := 0\<rparr>) 16 = Inr None" by auto
  from time_left_unknown_or_estimate [of "c25\<lparr>total := None\<rparr>" 16] pn
  have b: "time_left (c25\<lparr>total := None\<rparr>) 16 = Inr None" by auto
  have t: "total c25 \<noteq> None" by (simp add: c25_def)
  from time_left_unknown_or_estimate [of c25 16] percentage_c25 t
  have "time_left c25 16 =
              (if timedelta_in_range
                    (divide_nearest (of_int (time_elapsed c25 16) * (100 - 25)))
                  \<and> timedelta_in_range
                      (divide_nearest
                         (of_int (divide_nearest (of_int (time_elapsed c25 16) * (100 - 25)))
                            / 25))
               then Inr (Some (divide_nearest
                         (of_int (divide_nearest (of_int (time_elapsed c25 16) * (100 - 25)))
                            / 25)))
               else Inl OverflowError)"
    by auto
  then have c: "time_left c25 16 = Inr (Some 18)"
    by (simp add: c25_def time_elapsed_def divide_nearest_def timedelta_in_range_def)
  from percentage_c25 a b c show ?thesis by blast
qed

text \<open>
  C3, as stated, fails for \<open>N = 0\<close>: a counter created with total 0 is at percentage 0
  after no step, because the divisor is \<open>max(total, 1)\<close>.
\<close>

theorem percentage_full_counterexample:
  "ProgressBarCounter_init 0 (None :: nat iterable option) [] False (Some 0)
     = Inr \<lparr>start_time = 0, data = None, current = 0, label = [],
            remove_when_done = False, is_done = False, total = Some 0\<rparr>
   \<and> percentage ((advance ^^ 0)
         \<lparr>start_time = 0, data = (None :: nat iterable option), current = 0, label = [],
          remove_when_done = False, is_done = False, total = Some 0\<rparr>) = Inr 0
   \<and> (Inr 0 :: exn + real) \<noteq> Inr 100"
  by (simp add: ProgressBarCounter_init_def percentage_def py_truediv_def)

text \<open>
  C3, amended. For a counter with total \<open>N \<ge> 1\<close> that starts at 0, the percentage after
  exactly \<open>N\<close> advance steps is 100.
\<close>

theorem percentage_full:
  assumes "0 < N" and "total c = Some (int N)" and "current c = 0"
  shows "percentage ((advance ^^ N) c) = Inr 100"
proof -
  have t: "total ((advance ^^ N) c) = Some (int N)"
    using assms(2) by (simp add: total_funpow_advance)
  have k: "current ((advance ^^ N) c) = int N"
    using assms(3) by (simp add: current_funpow_advance)
  have "max (int N) 1 = int N" using assms(1) by simp
  with t k assms(1) show ?thesis
    by (simp add: percentage_value)
qed

theorem percentage_full_witness:
  "percentage ((advance ^^ 3) (c25\<lparr>current := 0, total := Some 3\<rparr>)) = Inr 100"
proof -
  have "(0::nat) < 3" by simp
  moreover have "total (c25\<lparr>current := 0, total := Some 3\<rparr>) = Some (int 3)" by simp
  moreover have "current (c25\<lparr>current := 0, total := Some 3\<rparr>) = 0" by simp
  ultimately show ?thesis by (rule percentage_full)
qed

section \<open>The concrete inputs, evaluated\<close>

lemma fresh_bar_init: "ProgressBar_init True SIG_DFL = Inr fresh_bar"
  by (simp add: ProgressBar_init_def fresh_bar_def)

lemma counters_bar1: "counters bar1 = [0]"
  by (simp add: bar1_def entered_bar_def fresh_bar_def ProgressBar_enter_def Let_def
      ProgressBar_call_def ProgressBarCounter_init_def py_len_def of_list_def)

lemma next_ref_bar1: "next_ref bar1 = 1"
  by (simp add: bar1_def entered_bar_def fresh_bar_def ProgressBar_enter_def Let_def
      ProgressBar_call_def ProgressBarCounter_init_def py_len_def of_list_def)

lemma app_bar1: "app bar1 = Some \<lparr>app_status = NotStarted, exit_requested = False\<rparr>"
  by (simp add: bar1_def entered_bar_def fresh_bar_def ProgressBar_enter_def Let_def
      ProgressBar_call_def ProgressBarCounter_init_def py_len_def of_list_def)

lemma store_bar1: "store bar1 0 = \<lparr>start_time = 0, data = Some (of_list [7, 8]), current = 0,
   label = ''a'', remove_when_done = True, is_done = False, total = Some 2\<rparr>"
  by (simp add: bar1_def entered_bar_def fresh_bar_def ProgressBar_enter_def Let_def
      ProgressBar_call_def ProgressBarCounter_init_def py_len_def of_list_def)

lemma counters_bar2: "counters bar2 = [0, 1]"
  by (simp add: bar2_def counters_bar1 next_ref_bar1 
      ProgressBar_call_def ProgressBarCounter_init_def py_len_def)

section \<open>Properties of the render control\<close>

lemma format_counters_map:
  "format_counters fmt tf s w rs (items, calls)
     = (items @ map (\<lambda>r. tf (line_of fmt s w r)) rs, calls @ map (printed_of fmt s w) rs)"
proof (induction rs arbitrary: items calls)
  case Nil
  show ?case by simp
next
  case (Cons r rs)
  show ?case
    by (cases "fmt s r w") (simp_all add: Cons.IH line_of_def printed_of_def)
qed

lemma create_content_map:
  "create_content fmt tf s w h
     = (\<lparr>get_line = py_getitem (map (\<lambda>r. tf (line_of fmt s w r)) (counters s)),
         line_count = length (counters s), show_cursor = False\<rparr>,
        map (printed_of fmt s w) (counters s))"
  by (simp add: create_content_def format_counters_map)

lemma py_getitem_nth: "i < length xs \<Longrightarrow> py_getitem xs (int i) = Inr (xs ! i)"
  by (simp add: py_getitem_def)

text \<open>
  C5. A frame has one line per registered counter; the formatter is called once per
  counter, in registry order; the line of counter number \<open>i\<close> is the formatter's answer
  for it, or the text ERROR when the formatter raised for it, whatever happened for the
  other counters.
\<close>

theorem create_content_isolates_failures:
  "line_count (fst (create_content fmt tf s w h)) = length (counters s)
   \<and> map fst (snd (create_content fmt tf s w h)) = counters s
   \<and> (\<forall>i < length (counters s).
        get_line (fst (create_content fmt tf s w h)) (int i)
          = Inr (tf (case fmt s (counters s ! i) w of
                       Inr t \<Rightarrow> t
                     | Inl e \<Rightarrow> PlainText ''ERROR'')))"
proof -
  have "map fst (map (printed_of fmt s w) (counters s)) = counters s"
    by (induction "counters s") (simp_all add: printed_of_def comp_def map_idI)
  then show ?thesis
    by (simp add: create_content_map py_getitem_nth line_of_def)
qed

theorem create_content_isolates_failures_witness:
  "line_count (fst (create_content failing_fmt id bar2 80 1)) = 2
   \<and> map fst (snd (create_content failing_fmt id bar2 80 1)) = [0, 1]
   \<and> get_line (fst (create_content failing_fmt id bar2 80 1)) 0 = Inr (PlainText ''ERROR'')
   \<and> get_line (fst (create_content failing_fmt id bar2 80 1)) 1 = Inr (PlainText ''fine'')"
proof -
  note t = create_content_isolates_failures [of failing_fmt id bar2 80 1]
  have l: "line_count (fst (create_content failing_fmt id bar2 80 1)) = 2"
    using t by (simp add: counters_bar2)
  have m: "map fst (snd (create_content failing_fmt id bar2 80 1)) = [0, 1]"
    using t by (simp add: counters_bar2)
  from t have a: "\<forall>i<2. get_line (fst (create_content failing_fmt id bar2 80 1)) (int i)
          = Inr (case failing_fmt bar2 ([0, 1] ! i) 80 of
                       Inr t \<Rightarrow> t
                     | Inl e \<Rightarrow> PlainText ''ERROR'')"
    by (simp add: counters_bar2)
  have "(0::nat) < 2" by simp
  with a have "get_line (fst (create_content failing_fmt id bar2 80 1)) (int 0)
          = Inr (case failing_fmt bar2 ([0, 1] ! 0) 80 of
                       Inr t \<Rightarrow> t
                     | Inl e \<Rightarrow> PlainText ''ERROR'')" by blast
  then have g0: "get_line (fst (create_content failing_fmt id bar2 80 1)) 0 = Inr (PlainText ''ERROR'')"
    by (simp add: failing_fmt_def)
  have "(1::nat) < 2" by simp
  with a have "get_line (fst (create_content failing_fmt id bar2 80 1)) (int 1)
          = Inr (case failing_fmt bar2 ([0, 1] ! 1) 80 of
                       Inr t \<Rightarrow> t
                     | Inl e \<Rightarrow> PlainText ''ERROR'')" by blast
  then have g1: "get_line (fst (create_content failing_fmt id bar2 80 1)) 1 = Inr (PlainText ''fine'')"
    by (simp add: failing_fmt_def)
  from l m g0 g1 show ?thesis by blast
qed

section \<open>Properties of the counter-creation operation and of the backend choice\<close>

lemma cleanup_member:
  "r \<in> set (counters s) \<Longrightarrow>
   cleanup s r =
     (Inr (), s\<lparr>store := (store s)(r := (store s r)\<lparr>is_done := True\<rparr>),
               counters := (if remove_when_done (store s r)
                            then remove1 r (counters s) else counters s)\<rparr>)"
  by (simp add: cleanup_def Let_def)

lemma first_next_of_registered:
  assumes "r \<in> set (counters s)"
  shows "fst (gen_next s (counter_iter r))
           = (case data (store s r) of
                None \<Rightarrow> StopIteration
              | Some it \<Rightarrow>
                  (case feed it 0 of
                     Item x \<Rightarrow> if app s = None then Propagates AttributeError else Yield x
                   | Exhausted \<Rightarrow> StopIteration
                   | Raises e \<Rightarrow> Propagates e))"
  using assms
  by (auto simp: gen_next_def counter_iter_def loop_turn_def leave_try_def cleanup_member
        invalidate_def Let_def split: option.splits pull.splits)

text \<open>
  C8, amended. When a total is given, or \<open>len\<close> answers, or \<open>len\<close> raises TypeError,
  the call allocates a counter with the given data, label and flag, whose total is the
  explicit total when one is given, else the length of the data when \<open>len\<close> answers,
  else unknown; the counter starts at 0 and not done; its reference is new, is appended at
  the end of the registry and is what the call returns, and the first \<^verbatim>\<open>next()\<close> on
  its wrapper pulls from that data. When no total is given and \<open>len\<close> raises another
  exception, the call raises it and the state is unchanged.
\<close>

theorem new_counter_registered:
  "(\<forall>e. tot = None \<and> py_len d = Inl e \<and> e \<noteq> TypeError \<longrightarrow>
        ProgressBar_call s now d lbl rwd tot = (Inl e, s))
   \<and> (tot \<noteq> None \<or> (\<exists>n. py_len d = Inr n) \<or> py_len d = Inl TypeError \<longrightarrow>
        ProgressBar_call s now d lbl rwd tot
          = (Inr (next_ref s),
             s\<lparr>store := (store s)(next_ref s :=
                   \<lparr>start_time = now, data = d, current = 0, label = lbl,
                    remove_when_done = rwd, is_done = False,
                    total = (case tot of
                               Some t \<Rightarrow> Some t
                             | None \<Rightarrow> (case py_len d of Inr n \<Rightarrow> Some n | Inl e \<Rightarrow> None))\<rparr>),
               next_ref := Suc (next_ref s),
               counters := counters s @ [next_ref s]\<rparr>)
        \<and> fst (gen_next (snd (ProgressBar_call s now d lbl rwd tot))
                 (counter_iter (next_ref s)))
            = (case d of
                 None \<Rightarrow> StopIteration
               | Some it \<Rightarrow>
                   (case feed it 0 of
                      Item x \<Rightarrow> if app s = None then Propagates AttributeError else Yield x
                    | Exhausted \<Rightarrow> StopIteration
                    | Raises e \<Rightarrow> Propagates e)))
   \<and> (wf s \<longrightarrow> next_ref s \<notin> set (counters s))"
proof -
  have a: "\<forall>e. tot = None \<and> py_len d = Inl e \<and> e \<noteq> TypeError \<longrightarrow>
        ProgressBar_call s now d lbl rwd tot = (Inl e, s)"
    by (simp add: ProgressBar_call_def ProgressBarCounter_init_def Let_def)
  let ?c = "\<lparr>start_time = now, data = d, current = 0, label = lbl,
                    remove_when_done = rwd, is_done = False,
                    total = (case tot of
                               Some t \<Rightarrow> Some t
                             | None \<Rightarrow> (case py_len d of Inr n \<Rightarrow> Some n | Inl e \<Rightarrow> None))\<rparr>"
  let ?s' = "s\<lparr>store := (store s)(next_ref s := ?c),
               next_ref := Suc (next_ref s),
               counters := counters s @ [next_ref s]\<rparr>"
  have b: "tot \<noteq> None \<or> (\<exists>n. py_len d = Inr n) \<or> py_len d = Inl TypeError \<longrightarrow>
        ProgressBar_call s now d lbl rwd tot = (Inr (next_ref s), ?s')"
    by (cases tot)
       (auto simp: ProgressBar_call_def ProgressBarCounter_init_def Let_def)
  have m: "next_ref s \<in> set (counters ?s')" by simp
  have n: "fst (gen_next ?s' (counter_iter (next_ref s)))
            = (case d of
                 None \<Rightarrow> StopIteration
               | Some it \<Rightarrow>
                   (case feed it 0 of
                      Item x \<Rightarrow> if app s = None then Propagates AttributeError else Yield x
                    | Exhausted \<Rightarrow> StopIteration
                    | Raises e \<Rightarrow> Propagates e))"
    using first_next_of_registered [OF m]
    by (auto split: option.splits pull.splits)
  have c: "wf s \<longrightarrow> next_ref s \<notin> set (counters s)"
    by (auto simp: wf_def list_all_iff)
  from a b n c show ?thesis by auto
qed


text \<open>
  C8, as stated, fails for a data source whose \<open>len\<close> raises something other than
  TypeError, as \<open>len(range(10**20))\<close> does with OverflowError: only TypeError is caught,
  so the call raises and no counter is registered.
\<close>

theorem new_counter_registered_counterexample:
  "py_len (Some huge_range) = Inl OverflowError
   \<and> fst (ProgressBar_call entered_bar 0 (Some huge_range) ''r'' False None)
       = Inl OverflowError
   \<and> counters (snd (ProgressBar_call entered_bar 0 (Some huge_range) ''r'' False None)) = []"
  by (simp add: py_len_def huge_range_def ProgressBar_call_def ProgressBarCounter_init_def
        entered_bar_def fresh_bar_def ProgressBar_enter_def Let_def)

lemma wf_bar1: "wf bar1"
  by (simp add: wf_def counters_bar1 next_ref_bar1)

theorem new_counter_registered_witness:
  "py_len (Some (of_list [7, 8 :: nat])) = Inr 2
   \<and> wf bar1
   \<and> fst (ProgressBar_call bar1 0 (Some (of_list [7, 8])) ''c'' False None) = Inr 1
   \<and> counters (snd (ProgressBar_call bar1 0 (Some (of_list [7, 8])) ''c'' False None)) = [0, 1]
   \<and> store (snd (ProgressBar_call bar1 0 (Some (of_list [7, 8])) ''c'' False None)) 1
       = \<lparr>start_time = 0, data = Some (of_list [7, 8]), current = 0, label = ''c'',
          remove_when_done = False, is_done = False, total = Some 2\<rparr>
   \<and> fst (gen_next (snd (ProgressBar_call bar1 0 (Some (of_list [7, 8])) ''c'' False None))
            (counter_iter 1)) = Yield 7
   \<and> 1 \<notin> set (counters bar1)"
proof -
  have len: "py_len (Some (of_list [7, 8 :: nat])) = Inr 2"
    by (simp add: py_len_def of_list_def)
  then have h: "(None :: int option) \<noteq> None
      \<or> (\<exists>n. py_len (Some (of_list [7, 8 :: nat])) = Inr n)
      \<or> py_len (Some (of_list [7, 8 :: nat])) = Inl TypeError"
    by simp
  note t = new_counter_registered [of None "Some (of_list [7, 8])" bar1 0 "''c''" False]
  from t h have eq: "ProgressBar_call bar1 0 (Some (of_list [7, 8])) ''c'' False None
          = (Inr (next_ref bar1),
             bar1\<lparr>store := (store bar1)(next_ref bar1 :=
                   \<lparr>start_time = 0, data = Some (of_list [7, 8]), current = 0, label = ''c'',
                    remove_when_done = False, is_done = False,
                    total = (case (None :: int option) of
                               Some t \<Rightarrow> Some t
                             | None \<Rightarrow> (case py_len (Some (of_list [7, 8 :: nat])) of
                                          Inr n \<Rightarrow> Some n | Inl e \<Rightarrow> None))\<rparr>),
               next_ref := Suc (next_ref bar1),
               counters := counters bar1 @ [next_ref bar1]\<rparr>)"
    by blast
  from t h have nx: "fst (gen_next (snd (ProgressBar_call bar1 0 (Some (of_list [7, 8])) ''c''
                       False None)) (counter_iter (next_ref bar1)))
            = (case Some (of_list [7, 8 :: nat]) of
                 None \<Rightarrow> StopIteration
               | Some it \<Rightarrow>
                   (case feed it 0 of
                      Item x \<Rightarrow> if app bar1 = None then Propagates AttributeError else Yield x
                    | Exhausted \<Rightarrow> StopIteration
                    | Raises e \<Rightarrow> Propagates e))"
    by blast
  from t have "wf bar1 \<longrightarrow> next_ref bar1 \<notin> set (counters bar1)" by blast
  with wf_bar1 have fr: "1 \<notin> set (counters bar1)" by (simp add: next_ref_bar1)
  have a: "fst (ProgressBar_call bar1 0 (Some (of_list [7, 8])) ''c'' False None) = Inr 1"
    by (simp add: eq next_ref_bar1)
  have b: "counters (snd (ProgressBar_call bar1 0 (Some (of_list [7, 8])) ''c'' False None))
             = [0, 1]"
    by (simp add: eq next_ref_bar1 counters_bar1)
  have c: "store (snd (ProgressBar_call bar1 0 (Some (of_list [7, 8])) ''c'' False None)) 1
       = \<lparr>start_time = 0, data = Some (of_list [7, 8]), current = 0, label = ''c'',
          remove_when_done = False, is_done = False, total = Some 2\<rparr>"
    by (simp add: eq next_ref_bar1 len)
  have d: "fst (gen_next (snd (ProgressBar_call bar1 0 (Some (of_list [7, 8])) ''c'' False None))
            (counter_iter 1)) = Yield 7"
    using nx by (simp add: next_ref_bar1 of_list_def app_bar1)
  from len wf_bar1 a b c d fr show ?thesis by blast
qed


text \<open>
  C9. On a Windows host the backend is the Windows 10 one when VT100 mode is enabled, else
  the ConEmu one when ConEmu is detected, else the Win32 one; on any other host it is the
  VT100 backend made from the stream and the terminal type of the environment. The stream
  is the one given, or the process's original stdout when none is given.
\<close>

theorem create_output_selection:
  "(is_windows h \<and> is_win_vt100_enabled h \<longrightarrow>
      create_output h out = Windows10_Output (py_or out (sys_stdout h)))
   \<and> (is_windows h \<and> \<not> is_win_vt100_enabled h \<and> is_conemu_ansi h \<longrightarrow>
      create_output h out = ConEmuOutput (py_or out (sys_stdout h)))
   \<and> (is_windows h \<and> \<not> is_win_vt100_enabled h \<and> \<not> is_conemu_ansi h \<longrightarrow>
      create_output h out = Win32Output (py_or out (sys_stdout h)))
   \<and> (\<not> is_windows h \<longrightarrow>
      create_output h out
        = Vt100_Output_from_pty (py_or out (sys_stdout h)) (term_environment_variable h))
   \<and> py_or None (sys_stdout h) = sys_stdout h
   \<and> py_or (Some st) (sys_stdout h) = Some st"
  by (simp add: create_output_def py_or_def)

theorem create_output_selection_witness:
  "create_output posix_host None = Vt100_Output_from_pty (Some 1) ''xterm''
   \<and> create_output (posix_host\<lparr>is_windows := True, is_win_vt100_enabled := True\<rparr>) (Some 2)
       = Windows10_Output (Some 2)
   \<and> create_output (posix_host\<lparr>is_windows := True, is_conemu_ansi := True\<rparr>) (Some 2)
       = ConEmuOutput (Some 2)
   \<and> create_output (posix_host\<lparr>is_windows := True\<rparr>) None = Win32Output (Some 1)"
proof -
  have a: "create_output posix_host None = Vt100_Output_from_pty (Some 1) ''xterm''"
    using create_output_selection [of posix_host None]
    by (simp add: posix_host_def py_or_def)
  have b: "create_output (posix_host\<lparr>is_windows := True, is_win_vt100_enabled := True\<rparr>) (Some 2)
       = Windows10_Output (Some 2)"
    using create_output_selection
      [of "posix_host\<lparr>is_windows := True, is_win_vt100_enabled := True\<rparr>" "Some 2"]
    by (simp add: posix_host_def py_or_def)
  have c: "create_output (posix_host\<lparr>is_windows := True, is_conemu_ansi := True\<rparr>) (Some 2)
       = ConEmuOutput (Some 2)"
    using create_output_selection
      [of "posix_host\<lparr>is_windows := True, is_conemu_ansi := True\<rparr>" "Some 2"]
    by (simp add: posix_host_def py_or_def)
  have d: "create_output (posix_host\<lparr>is_windows := True\<rparr>) None = Win32Output (Some 1)"
    using create_output_selection [of "posix_host\<lparr>is_windows := True\<rparr>" None]
    by (simp add: posix_host_def py_or_def)
  from a b c d show ?thesis by blast
qed

section \<open>The iteration wrapper never changes a total\<close>

lemma total_cleanup: "total (store (snd (cleanup s r)) q) = total (store s q)"
  by (simp add: cleanup_def Let_def)

lemma leave_try_state: "fst (snd (leave_try p s g)) = snd (cleanup s (self g))"
  by (cases "cleanup s (self g)")
     (simp add: leave_try_def Let_def split: sum.splits option.splits)

lemma total_leave_try: "total (store (fst (snd (leave_try p s g))) q) = total (store s q)"
  by (simp add: leave_try_state total_cleanup)

lemma total_invalidate: "total (store (snd (invalidate s)) q) = total (store s q)"
  by (simp add: invalidate_def split: option.splits)

lemma total_loop_turn: "total (store (fst (snd (loop_turn d k s g))) q) = total (store s q)"
proof (cases "feed d k")
  case (Item x)
  let ?s1 = "s\<lparr>store := (store s)(self g := advance (store s (self g)))\<rparr>"
  obtain r s2 where i: "invalidate ?s1 = (r, s2)" by (cases "invalidate ?s1")
  have a: "total (store ?s1 q) = total (store s q)" by (simp add: advance_def)
  have "total (store s2 q) = total (store ?s1 q)"
    using total_invalidate [of ?s1 q] i by simp
  with a have b: "total (store s2 q) = total (store s q)" by simp
  show ?thesis
  proof (cases r)
    case (Inl e)
    with Item i b show ?thesis
      by (simp add: loop_turn_def Let_def total_leave_try)
  next
    case (Inr u)
    with Item i b show ?thesis by (simp add: loop_turn_def Let_def)
  qed
next
  case Exhausted
  then show ?thesis by (simp add: loop_turn_def total_leave_try)
next
  case (Raises e)
  then show ?thesis by (simp add: loop_turn_def total_leave_try)
qed

lemma total_gen_next: "total (store (fst (snd (gen_next s g))) q) = total (store s q)"
  by (simp add: gen_next_def total_leave_try total_loop_turn
           split: gen_status.splits option.splits)

lemma total_gen_close: "total (store (fst (snd (gen_close s g))) q) = total (store s q)"
proof (cases "status g")
  case (Suspended k)
  obtain r s' where c: "cleanup s (self g) = (r, s')" by (cases "cleanup s (self g)")
  have "total (store s' q) = total (store s q)"
    using total_cleanup [of s "self g" q] c by simp
  with c Suspended show ?thesis by (simp add: gen_close_def)
qed (simp_all add: gen_close_def)

lemma total_act: "total (store (fst (act a sg)) q) = total (store (fst sg) q)"
  by (cases sg; cases a) (simp_all add: total_gen_next total_gen_close)

lemma total_drive: "total (store (fst (drive as sg)) q) = total (store (fst sg) q)"
  by (induction as arbitrary: sg) (simp_all add: total_act)

lemma store_bar2: "store bar2 (Suc 0) = \<lparr>start_time = 0, data = None, current = 0,
   label = ''b'', remove_when_done = False, is_done = False, total = None\<rparr>"
  by (simp add: bar2_def next_ref_bar1 ProgressBar_call_def ProgressBarCounter_init_def
      py_len_def)

text \<open>
  C4. The getter \<open>percentage\<close> never raises: it answers \<open>current * 100 / max(total, 1)\<close>
  when the total is known and 0 when it is unknown. A counter whose total is unknown keeps
  percentage 0 through any run of its wrapper or of any other, since no step of a wrapper
  assigns a total.
\<close>

theorem percentage_formula:
  "percentage c =
     Inr (case total c of
            None \<Rightarrow> 0
          | Some t \<Rightarrow> real_of_int (current c * 100) / real_of_int (max t 1))
   \<and> (total (store s r) = None \<longrightarrow>
        percentage (store (fst (drive as (s, g))) r) = Inr 0)"
proof -
  have "total (store (fst (drive as (s, g))) r) = total (store s r)"
    using total_drive [of as "(s, g)" r] by simp
  then show ?thesis by (simp add: percentage_value)
qed

lemma store_bar3: "total (store bar3 2) = None"
  by (simp add: bar3_def bar2_def next_ref_bar1 ProgressBar_call_def ProgressBarCounter_init_def
      py_len_def of_generator_def)

theorem percentage_formula_witness:
  "percentage c25 = Inr 25
   \<and> total (store bar2 1) = None
   \<and> percentage (store (fst (drive [Next, Next, Close] (bar2, counter_iter 1))) 1) = Inr 0
   \<and> total (store bar3 2) = None
   \<and> percentage (store (fst (drive [Next, Next, Next] (bar3, counter_iter 2))) 2) = Inr 0"
proof -
  have n: "total (store bar2 1) = None" by (simp add: store_bar2)
  from percentage_formula [of c25 bar2 1 "[Next, Next, Close]" "counter_iter 1"] n
  have a: "percentage c25 = Inr 25
     \<and> percentage (store (fst (drive [Next, Next, Close] (bar2, counter_iter 1))) 1) = Inr 0"
    by (simp add: c25_def)
  from percentage_formula [of c25 bar3 2 "[Next, Next, Next]" "counter_iter 2"] store_bar3
  have b: "percentage (store (fst (drive [Next, Next, Next] (bar3, counter_iter 2))) 2) = Inr 0"
    by blast
  from a n store_bar3 b show ?thesis by blast
qed

section \<open>Reachable states have well-formed registries\<close>

lemma wf_init: "ProgressBar_init p h = Inr s \<Longrightarrow> wf s"
  by (auto simp: ProgressBar_init_def wf_def split: if_splits)

lemma wf_remove1:
  assumes "wf s" and "counters t = remove1 r (counters s)" and "next_ref t = next_ref s"
  shows "wf t"
proof -
  from assms(1) have d: "distinct (counters s)" and b: "\<forall>q \<in> set (counters s). q < next_ref s"
    by (simp_all add: wf_def list_all_iff)
  have "set (remove1 r (counters s)) \<subseteq> set (counters s)" by (rule set_remove1_subset)
  with b have "\<forall>q \<in> set (remove1 r (counters s)). q < next_ref s" by blast
  with d assms(2,3) show ?thesis by (simp add: wf_def list_all_iff)
qed

lemma wf_enter: "wf s \<Longrightarrow> wf (ProgressBar_enter p m s)"
  by (simp add: wf_def ProgressBar_enter_def Let_def)

lemma wf_render: "wf s \<Longrightarrow> wf (render_thread_step st s)"
  by (simp add: wf_def render_thread_step_def split: option.splits)

lemma wf_invalidate: "wf s \<Longrightarrow> wf (snd (invalidate s))"
  by (simp add: wf_def invalidate_def split: option.splits)

lemma wf_call: "wf s \<Longrightarrow> wf (snd (ProgressBar_call s now d lbl rwd tot))"
  by (cases "ProgressBarCounter_init now d lbl rwd tot")
     (auto simp: ProgressBar_call_def wf_def list_all_iff less_Suc_eq)

lemma exit_registry:
  "counters (snd (ProgressBar_exit s)) = counters s"
  "next_ref (snd (ProgressBar_exit s)) = next_ref s"
  "store (snd (ProgressBar_exit s)) = store s"
  by (auto simp: ProgressBar_exit_def Application_exit_def signal_signal_def
        remove_signal_handler_def thread_join_def Let_def split: option.splits)

lemma wf_exit: "wf s \<Longrightarrow> wf (snd (ProgressBar_exit s))"
  by (simp add: wf_def exit_registry)

lemma wf_cleanup: "wf s \<Longrightarrow> wf (snd (cleanup s r))"
proof (cases "remove_when_done (store s r) \<and> r \<in> set (counters s)")
  case True
  assume w: "wf s"
  from True have "counters (snd (cleanup s r)) = remove1 r (counters s)"
    and "next_ref (snd (cleanup s r)) = next_ref s"
    by (simp_all add: cleanup_def Let_def)
  with w show ?thesis by (rule wf_remove1)
next
  case False
  assume "wf s"
  with False show ?thesis
    by (auto simp: wf_def cleanup_def Let_def)
qed

lemma wf_leave_try: "wf s \<Longrightarrow> wf (fst (snd (leave_try p s g)))"
  by (simp add: leave_try_state wf_cleanup)

lemma wf_loop_turn: "wf s \<Longrightarrow> wf (fst (snd (loop_turn d k s g)))"
proof (cases "feed d k")
  case (Item x)
  assume w: "wf s"
  let ?s1 = "s\<lparr>store := (store s)(self g := advance (store s (self g)))\<rparr>"
  have w1: "wf ?s1" using w by (simp add: wf_def)
  obtain r s2 where i: "invalidate ?s1 = (r, s2)" by (cases "invalidate ?s1")
  have w2: "wf s2" using wf_invalidate [OF w1] i by simp
  show ?thesis
  proof (cases r)
    case (Inl e)
    with Item i show ?thesis by (simp add: loop_turn_def Let_def wf_leave_try [OF w2])
  next
    case (Inr u)
    with Item i w2 show ?thesis by (simp add: loop_turn_def Let_def)
  qed
next
  case Exhausted
  assume "wf s"
  with Exhausted show ?thesis by (simp add: loop_turn_def wf_leave_try)
next
  case (Raises e)
  assume "wf s"
  with Raises show ?thesis by (simp add: loop_turn_def wf_leave_try)
qed

lemma wf_gen_next: "wf s \<Longrightarrow> wf (fst (snd (gen_next s g)))"
  by (simp add: gen_next_def wf_leave_try wf_loop_turn
        split: gen_status.splits option.splits)

lemma wf_gen_close: "wf s \<Longrightarrow> wf (fst (snd (gen_close s g)))"
proof (cases "status g")
  case (Suspended k)
  assume w: "wf s"
  obtain r s' where c: "cleanup s (self g) = (r, s')" by (cases "cleanup s (self g)")
  with wf_cleanup [OF w, of "self g"] have "wf s'" by simp
  with c Suspended show ?thesis by (simp add: gen_close_def)
qed (simp_all add: gen_close_def)

lemma wf_apply_op: "wf s \<Longrightarrow> wf (apply_op x s)"
  by (cases x)
     (simp_all add: wf_enter wf_render wf_call wf_invalidate wf_gen_next wf_gen_close wf_exit)

lemma wf_run: "wf s \<Longrightarrow> wf (run ops s)"
  by (induction ops arbitrary: s) (simp_all add: wf_apply_op)

lemma reachable_distinct:
  assumes "ProgressBar_init p h = Inr s0"
  shows "distinct (counters (run ops s0))"
  using wf_run [OF wf_init [OF assms], of ops] by (simp add: wf_def)

section \<open>The cleanup of the iteration wrapper\<close>

lemma cleanup_registered:
  assumes "r \<in> set (counters s)" and "distinct (counters s)"
  shows "cleanup s r =
     (Inr (), s\<lparr>store := (store s)(r := (store s r)\<lparr>is_done := True\<rparr>),
               counters := (if remove_when_done (store s r)
                            then remove1 r (counters s) else counters s)\<rparr>)"
  using assms by (simp add: cleanup_def Let_def)

lemma leave_try_ended:
  assumes "self g = r" and "finally_runs g = 0" and "r \<in> set (counters s)"
    and "distinct (counters s)" and "remove_when_done (store s r) = rwd"
  shows "ended r rwd (snd (leave_try p s g))"
  using assms
  by (cases p) (simp_all add: leave_try_def cleanup_registered ended_def)

lemma loop_turn_step:
  assumes "self g = r" and "finally_runs g = 0" and "r \<in> set (counters s)"
    and "distinct (counters s)" and "remove_when_done (store s r) = rwd"
  shows "iterating r rwd (snd (loop_turn d k s g)) \<or> ended r rwd (snd (loop_turn d k s g))"
proof (cases "feed d k")
  case (Item x)
  let ?s1 = "s\<lparr>store := (store s)(self g := advance (store s (self g)))\<rparr>"
  show ?thesis
  proof (cases "app s")
    case None
    then have i: "invalidate ?s1 = (Inl AttributeError, ?s1)"
      by (simp add: invalidate_def)
    have "ended r rwd (snd (leave_try (Some AttributeError) ?s1 g))"
      using assms by (intro leave_try_ended) (simp_all add: advance_def)
    with Item i show ?thesis by (simp add: loop_turn_def Let_def)
  next
    case (Some a)
    then have i: "invalidate ?s1 = (Inr (), ?s1\<lparr>trace := trace ?s1 @ [CallSoonThreadsafe]\<rparr>)"
      by (simp add: invalidate_def)
    with Item assms show ?thesis
      by (simp add: loop_turn_def Let_def iterating_def suspended_def advance_def)
  qed
next
  case Exhausted
  with leave_try_ended [OF assms] show ?thesis by (simp add: loop_turn_def)
next
  case (Raises e)
  with leave_try_ended [OF assms] show ?thesis by (simp add: loop_turn_def)
qed

lemma gen_next_first:
  assumes "r \<in> set (counters s)" and "distinct (counters s)"
    and "remove_when_done (store s r) = rwd"
  shows "iterating r rwd (snd (gen_next s (counter_iter r)))
         \<or> ended r rwd (snd (gen_next s (counter_iter r)))"
proof -
  have g: "self (counter_iter r) = r" "finally_runs (counter_iter r) = 0"
    "status (counter_iter r) = Unstarted"
    by (simp_all add: counter_iter_def)
  show ?thesis
  proof (cases "data (store s r)")
    case None
    with g leave_try_ended [OF g(1) g(2) assms, of None] show ?thesis
      by (simp add: gen_next_def)
  next
    case (Some d)
    with g loop_turn_step [OF g(1) g(2) assms, of d 0] show ?thesis
      by (simp add: gen_next_def)
  qed
qed

lemma gen_next_iterating:
  assumes "iterating r rwd (s, g)"
  shows "iterating r rwd (snd (gen_next s g)) \<or> ended r rwd (snd (gen_next s g))"
proof -
  from assms obtain k where k: "status g = Suspended k"
    by (auto simp: iterating_def suspended_def split: gen_status.splits)
  from assms have h: "self g = r" "finally_runs g = 0" "r \<in> set (counters s)"
    "distinct (counters s)" "remove_when_done (store s r) = rwd"
    by (simp_all add: iterating_def)
  show ?thesis
  proof (cases "data (store s r)")
    case None
    with k h leave_try_ended [OF h, of None] show ?thesis
      by (simp add: gen_next_def)
  next
    case (Some d)
    with k h loop_turn_step [OF h, of d k] show ?thesis
      by (simp add: gen_next_def)
  qed
qed

lemma gen_close_iterating:
  assumes "iterating r rwd (s, g)"
  shows "ended r rwd (snd (gen_close s g))"
proof -
  from assms obtain k where k: "status g = Suspended k"
    by (auto simp: iterating_def suspended_def split: gen_status.splits)
  from assms have h: "self g = r" "finally_runs g = 0" "r \<in> set (counters s)"
    "distinct (counters s)" "remove_when_done (store s r) = rwd"
    by (simp_all add: iterating_def)
  with k show ?thesis
    by (simp add: gen_close_def cleanup_registered ended_def)
qed

lemma act_ended:
  assumes "ended r rwd sg"
  shows "act a sg = sg"
  using assms
  by (cases sg; cases a) (simp_all add: ended_def gen_next_def gen_close_def)

lemma act_step:
  assumes "iterating r rwd sg \<or> ended r rwd sg"
  shows "iterating r rwd (act a sg) \<or> ended r rwd (act a sg)"
proof (cases "ended r rwd sg")
  case True
  then show ?thesis by (simp add: act_ended)
next
  case False
  with assms have i: "iterating r rwd sg" by simp
  obtain s g where sg: "sg = (s, g)" by (cases sg)
  show ?thesis
  proof (cases a)
    case Next
    with gen_next_iterating [of r rwd s g] i sg show ?thesis by simp
  next
    case Close
    with gen_close_iterating [of r rwd s g] i sg show ?thesis by simp
  qed
qed

lemma gen_next_finishes:
  "(case fst (gen_next s g) of Yield x \<Rightarrow> suspended (snd (snd (gen_next s g)))
      | _ \<Rightarrow> status (snd (snd (gen_next s g))) = Finished)"
  by (cases "cleanup s (self g)")
     (auto simp: gen_next_def loop_turn_def leave_try_def invalidate_def Let_def suspended_def
       split: gen_status.splits option.splits pull.splits sum.splits prod.splits)

lemma gen_close_finishes: "status (snd (snd (gen_close s g))) = Finished"
  by (cases "cleanup s (self g)")
     (simp add: gen_close_def split: gen_status.splits)




lemma untouched_refl: "untouched r s s"
  by (simp add: untouched_def)

lemma untouched_trans: "untouched r s t \<Longrightarrow> untouched r t u \<Longrightarrow> untouched r s u"
  by (simp add: untouched_def)

lemma untouched_cleanup: "q \<noteq> r \<Longrightarrow> untouched r s (snd (cleanup s q))"
  by (auto simp: untouched_def cleanup_def Let_def)

lemma untouched_invalidate: "untouched r s (snd (invalidate s))"
  by (simp add: untouched_def invalidate_def split: option.splits)

lemma untouched_leave_try: "self g \<noteq> r \<Longrightarrow> untouched r s (fst (snd (leave_try p s g)))"
  by (simp add: leave_try_state untouched_cleanup)

lemma untouched_loop_turn:
  assumes "self g \<noteq> r"
  shows "untouched r s (fst (snd (loop_turn d k s g)))"
proof (cases "feed d k")
  case (Item x)
  let ?s1 = "s\<lparr>store := (store s)(self g := advance (store s (self g)))\<rparr>"
  obtain e s2 where i: "invalidate ?s1 = (e, s2)" by (cases "invalidate ?s1")
  have a: "untouched r s ?s1" using assms by (simp add: untouched_def)
  have "untouched r ?s1 s2" using untouched_invalidate [of r ?s1] i by simp
  with a have b: "untouched r s s2" by (rule untouched_trans)
  show ?thesis
  proof (cases e)
    case (Inl x1)
    have "untouched r s2 (fst (snd (leave_try (Some x1) s2 g)))"
      using assms by (rule untouched_leave_try)
    with b have "untouched r s (fst (snd (leave_try (Some x1) s2 g)))"
      by (rule untouched_trans)
    with Item i Inl show ?thesis by (simp add: loop_turn_def Let_def)
  next
    case (Inr u)
    with Item i b show ?thesis by (simp add: loop_turn_def Let_def)
  qed
next
  case Exhausted
  with assms show ?thesis by (simp add: loop_turn_def untouched_leave_try)
next
  case (Raises e)
  with assms show ?thesis by (simp add: loop_turn_def untouched_leave_try)
qed

lemma untouched_gen_next: "self g \<noteq> r \<Longrightarrow> untouched r s (fst (snd (gen_next s g)))"
  by (simp add: gen_next_def untouched_leave_try untouched_loop_turn untouched_refl
        split: gen_status.splits option.splits)

lemma untouched_gen_close: "self g \<noteq> r \<Longrightarrow> untouched r s (fst (snd (gen_close s g)))"
proof (cases "status g")
  case (Suspended k)
  assume n: "self g \<noteq> r"
  obtain e s' where c: "cleanup s (self g) = (e, s')" by (cases "cleanup s (self g)")
  with untouched_cleanup [OF n, of s] have "untouched r s s'" by simp
  with c Suspended show ?thesis by (simp add: gen_close_def)
qed (simp_all add: gen_close_def untouched_def)

lemma foreign_keeps:
  assumes "foreign r (Other x)" and "r < next_ref s"
  shows "store (apply_op x s) r = store s r"
    and "(r \<in> set (counters (apply_op x s))) = (r \<in> set (counters s))"
    and "r < next_ref (apply_op x s)"
proof -
  have "store (apply_op x s) r = store s r
        \<and> (r \<in> set (counters (apply_op x s))) = (r \<in> set (counters s))
        \<and> r < next_ref (apply_op x s)"
  proof (cases x)
    case (Enter p m)
    with assms(2) show ?thesis by (simp add: ProgressBar_enter_def Let_def)
  next
    case (RenderThread st)
    with assms(2) show ?thesis by (simp add: render_thread_step_def split: option.splits)
  next
    case (Call now d lbl rwd tot)
    with assms(2) show ?thesis
      by (cases "ProgressBarCounter_init now d lbl rwd tot")
         (auto simp: ProgressBar_call_def)
  next
    case Invalidate
    with assms(2) untouched_invalidate [of r s] show ?thesis by (simp add: untouched_def)
  next
    case (GenNext g)
    with assms have "self g \<noteq> r" by simp
    from untouched_gen_next [OF this, of s] GenNext assms(2) show ?thesis
      by (simp add: untouched_def)
  next
    case (GenClose g)
    with assms have "self g \<noteq> r" by simp
    from untouched_gen_close [OF this, of s] GenClose assms(2) show ?thesis
      by (simp add: untouched_def)
  next
    case Exit
    with assms(2) show ?thesis by (simp add: exit_registry)
  qed
  then show "store (apply_op x s) r = store s r"
    and "(r \<in> set (counters (apply_op x s))) = (r \<in> set (counters s))"
    and "r < next_ref (apply_op x s)"
    by blast+
qed


lemma next_ref_gen_next: "next_ref (fst (snd (gen_next s g))) = next_ref s"
  using untouched_gen_next [of g "Suc (self g)" s] by (simp add: untouched_def)

lemma next_ref_gen_close: "next_ref (fst (snd (gen_close s g))) = next_ref s"
  using untouched_gen_close [of g "Suc (self g)" s] by (simp add: untouched_def)

lemma next_ref_act: "next_ref (fst (act a sg)) = next_ref (fst sg)"
  by (cases sg; cases a) (simp_all add: next_ref_gen_next next_ref_gen_close)

lemma wf_act: "wf (fst sg) \<Longrightarrow> wf (fst (act a sg))"
  by (cases sg; cases a) (simp_all add: wf_gen_next wf_gen_close)

lemma other_step:
  assumes "iterating r rwd (s, g) \<or> ended r rwd (s, g)"
    and "wf s" and "r < next_ref s" and "foreign r (Other x)"
  shows "iterating r rwd (apply_op x s, g) \<or> ended r rwd (apply_op x s, g)"
proof -
  note k = foreign_keeps [OF assms(4) assms(3)]
  have "distinct (counters (apply_op x s))"
    using wf_apply_op [OF assms(2), of x] by (simp add: wf_def)
  with assms(1) k(1) k(2) show ?thesis
    by (auto simp: iterating_def ended_def)
qed

lemma interleave_invariant:
  assumes "iterating r rwd sg \<or> ended r rwd sg"
    and "wf (fst sg)" and "r < next_ref (fst sg)" and "list_all (foreign r) steps"
  shows "iterating r rwd (interleave steps sg) \<or> ended r rwd (interleave steps sg)"
  using assms
proof (induction steps arbitrary: sg)
  case Nil
  then show ?case by simp
next
  case (Cons x xs)
  obtain s g where sg: "sg = (s, g)" by (cases sg)
  from Cons.prems(4) have fx: "foreign r x" and fxs: "list_all (foreign r) xs" by simp_all
  show ?case
  proof (cases x)
    case (Own a)
    have 1: "iterating r rwd (act a sg) \<or> ended r rwd (act a sg)"
      using act_step [OF Cons.prems(1)] .
    have 2: "wf (fst (act a sg))" using wf_act [OF Cons.prems(2)] .
    have 3: "r < next_ref (fst (act a sg))" using Cons.prems(3) by (simp add: next_ref_act)
    from Cons.IH [OF 1 2 3 fxs] Own show ?thesis by simp
  next
    case (Other y)
    from Cons.prems sg have i: "iterating r rwd (s, g) \<or> ended r rwd (s, g)"
      and w: "wf s" and b: "r < next_ref s" by simp_all
    from fx Other have f: "foreign r (Other y)" by simp
    have 1: "iterating r rwd (apply_op y s, g) \<or> ended r rwd (apply_op y s, g)"
      using other_step [OF i w b f] .
    have 2: "wf (fst (apply_op y s, g))" using wf_apply_op [OF w, of y] by simp
    have 3: "r < next_ref (fst (apply_op y s, g))"
      using foreign_keeps(3) [OF f b] by simp
    from Cons.IH [OF 1 2 3 fxs] Other sg show ?thesis by simp
  qed
qed

lemma iteration_invariant:
  assumes "ProgressBar_init p h = Inr s0" and "s = run ops s0"
    and "r \<in> set (counters s)" and "list_all (foreign r) steps"
  shows "iterating r (remove_when_done (store s r))
           (interleave (Own Next # steps) (s, counter_iter r))
         \<or> ended r (remove_when_done (store s r))
           (interleave (Own Next # steps) (s, counter_iter r))"
proof -
  have w: "wf s" using wf_run [OF wf_init [OF assms(1)], of ops] assms(2) by simp
  then have dist: "distinct (counters s)" by (simp add: wf_def)
  from w assms(3) have b: "r < next_ref s" by (auto simp: wf_def list_all_iff)
  let ?sg = "act Next (s, counter_iter r)"
  from gen_next_first [OF assms(3) dist refl]
  have 1: "iterating r (remove_when_done (store s r)) ?sg
        \<or> ended r (remove_when_done (store s r)) ?sg"
    by simp
  have 2: "wf (fst ?sg)" using wf_act [of "(s, counter_iter r)" Next] w by simp
  have 3: "r < next_ref (fst ?sg)" using b next_ref_act [of Next "(s, counter_iter r)"] by simp
  from interleave_invariant [OF 1 2 3 assms(4)] show ?thesis by simp
qed

lemma next_bar1:
  "gen_next bar1 (counter_iter 0)
     = (Yield 7,
        bar1\<lparr>store := (store bar1)(0 := advance (store bar1 0)),
             trace := trace bar1 @ [CallSoonThreadsafe]\<rparr>,
        \<lparr>self = 0, status = Suspended (Suc 0), finally_runs = 0\<rparr>)"
  by (simp add: gen_next_def counter_iter_def store_bar1 loop_turn_def of_list_def
       invalidate_def app_bar1 Let_def)

lemma close_bar1:
  "snd (gen_close (bar1\<lparr>store := (store bar1)(0 := advance (store bar1 0)),
                        trace := trace bar1 @ [CallSoonThreadsafe]\<rparr>)
        \<lparr>self = 0, status = Suspended (Suc 0), finally_runs = 0\<rparr>)
     = (bar1\<lparr>store := (store bar1)(0 := (advance (store bar1 0))\<lparr>is_done := True\<rparr>),
             trace := trace bar1 @ [CallSoonThreadsafe],
             counters := []\<rparr>,
        \<lparr>self = 0, status = Finished, finally_runs = Suc 0\<rparr>)"
  by (simp add: gen_close_def cleanup_def store_bar1 counters_bar1 advance_def Let_def)

lemma bar1_done_eq:
  "bar1_done = bar1\<lparr>store := (store bar1)(0 := (advance (store bar1 0))\<lparr>is_done := True\<rparr>),
                     trace := trace bar1 @ [CallSoonThreadsafe],
                     counters := []\<rparr>"
  by (simp add: bar1_done_def next_bar1 close_bar1)

lemma bar1_done_fields:
  "counters bar1_done = []"
  "app bar1_done = Some \<lparr>app_status = NotStarted, exit_requested = False\<rparr>"
  "store bar1_done 0 = \<lparr>start_time = 0, data = Some (of_list [7, 8]), current = 1,
     label = ''a'', remove_when_done = True, is_done = True, total = Some 2\<rparr>"
  by (simp_all add: bar1_done_eq app_bar1 store_bar1 advance_def)

lemma next_bar1_done:
  "gen_next bar1_done (counter_iter 0)
     = (Yield 7,
        bar1_done\<lparr>store := (store bar1_done)(0 := advance (store bar1_done 0)),
                  trace := trace bar1_done @ [CallSoonThreadsafe]\<rparr>,
        \<lparr>self = 0, status = Suspended (Suc 0), finally_runs = 0\<rparr>)"
  by (simp add: gen_next_def counter_iter_def bar1_done_fields loop_turn_def of_list_def
       invalidate_def Let_def)

text \<open>
  C1, as stated, fails for a counter with \<^verbatim>\<open>remove_when_done\<close> that is iterated a
  second time: its first iteration has taken it out of the registry, so during the second
  one it is suspended while not registered, and the cleanup of the second one raises
  ValueError instead of removing it.
\<close>

theorem iteration_cleanup_exactly_once_counterexample:
  "fst (ProgressBar_call entered_bar 0 (Some (of_list [7, 8])) ''a'' True None) = Inr 0
   \<and> status (snd (drive [Next, Close] (bar1, counter_iter 0))) = Finished
   \<and> status (snd (drive [Next] (bar1_done, counter_iter 0))) = Suspended 1
   \<and> 0 \<notin> set (counters (fst (drive [Next] (bar1_done, counter_iter 0))))
   \<and> fst (gen_close (fst (drive [Next] (bar1_done, counter_iter 0)))
                     (snd (drive [Next] (bar1_done, counter_iter 0)))) = Inl ValueError"
proof -
  have a: "fst (ProgressBar_call entered_bar 0 (Some (of_list [7, 8])) ''a'' True None) = Inr 0"
    by (simp add: entered_bar_def fresh_bar_def ProgressBar_enter_def Let_def
      ProgressBar_call_def ProgressBarCounter_init_def py_len_def of_list_def)
  have b: "status (snd (drive [Next, Close] (bar1, counter_iter 0))) = Finished"
    by (simp add: next_bar1 close_bar1)
  have c: "status (snd (drive [Next] (bar1_done, counter_iter 0))) = Suspended 1"
    by (simp add: next_bar1_done)
  have d: "0 \<notin> set (counters (fst (drive [Next] (bar1_done, counter_iter 0))))"
    by (simp add: next_bar1_done bar1_done_fields)
  have e: "fst (gen_close (fst (drive [Next] (bar1_done, counter_iter 0)))
                     (snd (drive [Next] (bar1_done, counter_iter 0)))) = Inl ValueError"
    by (simp add: next_bar1_done gen_close_def cleanup_def bar1_done_fields advance_def Let_def)
  from a b c d e show ?thesis by blast
qed

text \<open>
  C1, amended. Take any state the ProgressBar can reach and a counter that is in its
  registry, as every counter obtained from the ProgressBar is until a cleanup removes it.
  Iterate its wrapper: a first \<^verbatim>\<open>next()\<close>, then any further calls of
  \<^verbatim>\<open>next()\<close> and \<^verbatim>\<open>close()\<close> (abandoning a suspended generator, after
  \<^verbatim>\<open>break\<close> or an exception in the loop body, closes it), with any other
  operations in between that are not steps of another generator of the same counter. Once
  the generator has finished, the \<^verbatim>\<open>finally\<close> block has run exactly once, the
  counter is done, and with \<^verbatim>\<open>remove_when_done\<close> it is out of the registry; before
  that the block has not run and the counter is in the registry. Every exit finishes the
  generator: a \<^verbatim>\<open>next()\<close> that yields nothing (exhaustion, or an exception passing
  through) and a \<^verbatim>\<open>close()\<close>.
\<close>

theorem iteration_cleanup_exactly_once:
  assumes "ProgressBar_init p h = Inr s0" and "s = run ops s0"
    and "r \<in> set (counters s)" and "list_all (foreign r) steps"
  shows "(status (snd (interleave (Own Next # steps) (s, counter_iter r))) = Finished \<longrightarrow>
            finally_runs (snd (interleave (Own Next # steps) (s, counter_iter r))) = 1
            \<and> is_done (store (fst (interleave (Own Next # steps) (s, counter_iter r))) r)
            \<and> (remove_when_done (store s r) \<longrightarrow>
                 r \<notin> set (counters
                            (fst (interleave (Own Next # steps) (s, counter_iter r))))))
       \<and> (status (snd (interleave (Own Next # steps) (s, counter_iter r))) \<noteq> Finished \<longrightarrow>
            finally_runs (snd (interleave (Own Next # steps) (s, counter_iter r))) = 0
            \<and> r \<in> set (counters (fst (interleave (Own Next # steps) (s, counter_iter r)))))
       \<and> (\<forall>t h. (\<forall>x. fst (gen_next t h) \<noteq> (Yield x :: 'a outcome)) \<longrightarrow>
                 status (snd (snd (gen_next (t :: 'a state) h))) = Finished)
       \<and> (\<forall>t h. status (snd (snd (gen_close (t :: 'a state) h))) = Finished)"
proof -
  let ?sg = "interleave (Own Next # steps) (s, counter_iter r)"
  let ?rwd = "remove_when_done (store s r)"
  from iteration_invariant [OF assms]
  have inv: "iterating r ?rwd ?sg \<or> ended r ?rwd ?sg" .
  have a: "status (snd ?sg) = Finished \<longrightarrow>
            finally_runs (snd ?sg) = 1 \<and> is_done (store (fst ?sg) r)
            \<and> (?rwd \<longrightarrow> r \<notin> set (counters (fst ?sg)))"
    using inv by (auto simp: iterating_def ended_def suspended_def)
  have b: "status (snd ?sg) \<noteq> Finished \<longrightarrow>
            finally_runs (snd ?sg) = 0 \<and> r \<in> set (counters (fst ?sg))"
    using inv by (auto simp: iterating_def ended_def)
  have c: "\<forall>t h. (\<forall>x. fst (gen_next t h) \<noteq> (Yield x :: 'a outcome)) \<longrightarrow>
                 status (snd (snd (gen_next (t :: 'a state) h))) = Finished"
  proof (intro allI impI)
    fix t :: "'a state" and h
    assume n: "\<forall>x. fst (gen_next t h) \<noteq> (Yield x :: 'a outcome)"
    with gen_next_finishes [of t h]
    show "status (snd (snd (gen_next t h))) = Finished"
      by (cases "fst (gen_next t h)") simp_all
  qed
  have d: "\<forall>t h. status (snd (snd (gen_close (t :: 'a state) h))) = Finished"
    by (simp add: gen_close_finishes)
  from a b c d show ?thesis by blast
qed

lemma bar1_reached:
  "bar1 = run [Enter True True, Call 0 (Some (of_list [7, 8])) ''a'' True None] fresh_bar"
  by (simp add: bar1_def entered_bar_def)

theorem iteration_cleanup_exactly_once_witness:
  "ProgressBar_init True SIG_DFL = Inr fresh_bar
   \<and> bar1 = run [Enter True True, Call 0 (Some (of_list [7, 8])) ''a'' True None] fresh_bar
   \<and> 0 \<in> set (counters bar1)
   \<and> list_all (foreign 0) [Other (Call 0 (None :: nat iterable option) ''b'' False None),
                            Own Close]
   \<and> status (snd (interleave [Own Next, Other (Call 0 None ''b'' False None)]
                   (bar1, counter_iter 0))) = Suspended 1
   \<and> finally_runs (snd (interleave [Own Next, Other (Call 0 None ''b'' False None)]
                          (bar1, counter_iter 0))) = 0
   \<and> 0 \<in> set (counters (fst (interleave [Own Next, Other (Call 0 None ''b'' False None)]
                                (bar1, counter_iter 0))))
   \<and> status (snd (interleave [Own Next, Other (Call 0 None ''b'' False None), Own Close]
                   (bar1, counter_iter 0))) = Finished
   \<and> finally_runs (snd (interleave [Own Next, Other (Call 0 None ''b'' False None), Own Close]
                          (bar1, counter_iter 0))) = 1
   \<and> is_done (store (fst (interleave
                             [Own Next, Other (Call 0 None ''b'' False None), Own Close]
                             (bar1, counter_iter 0))) 0)
   \<and> 0 \<notin> set (counters (fst (interleave
                                [Own Next, Other (Call 0 None ''b'' False None), Own Close]
                                (bar1, counter_iter 0))))"
proof -
  let ?c = "Other (Call 0 (None :: nat iterable option) ''b'' False None)"
  have h1: "0 \<in> set (counters bar1)" by (simp add: counters_bar1)
  have f1: "list_all (foreign 0) [?c]" by simp
  have f2: "list_all (foreign 0) [?c, Own Close]" by simp
  have rwd: "remove_when_done (store bar1 0)" by (simp add: store_bar1)
  have s1: "status (snd (interleave [Own Next, ?c] (bar1, counter_iter 0))) = Suspended 1"
    by (simp add: next_bar1)
  have s2: "status (snd (interleave [Own Next, ?c, Own Close] (bar1, counter_iter 0)))
              = Finished"
    by (simp add: next_bar1 gen_close_finishes)
  from s1 have n1: "status (snd (interleave [Own Next, ?c] (bar1, counter_iter 0)))
                      \<noteq> Finished"
    by simp
  from iteration_cleanup_exactly_once [OF fresh_bar_init bar1_reached h1 f1]
  have "status (snd (interleave [Own Next, ?c] (bar1, counter_iter 0))) \<noteq> Finished \<longrightarrow>
      finally_runs (snd (interleave [Own Next, ?c] (bar1, counter_iter 0))) = 0
      \<and> 0 \<in> set (counters (fst (interleave [Own Next, ?c] (bar1, counter_iter 0))))"
    by blast
  with n1 have during:
    "finally_runs (snd (interleave [Own Next, ?c] (bar1, counter_iter 0))) = 0
      \<and> 0 \<in> set (counters (fst (interleave [Own Next, ?c] (bar1, counter_iter 0))))"
    by blast
  from iteration_cleanup_exactly_once [OF fresh_bar_init bar1_reached h1 f2]
  have "status (snd (interleave [Own Next, ?c, Own Close] (bar1, counter_iter 0))) = Finished
      \<longrightarrow>
      finally_runs (snd (interleave [Own Next, ?c, Own Close] (bar1, counter_iter 0))) = 1
      \<and> is_done (store (fst (interleave [Own Next, ?c, Own Close] (bar1, counter_iter 0))) 0)
      \<and> (remove_when_done (store bar1 0) \<longrightarrow>
           0 \<notin> set (counters (fst (interleave [Own Next, ?c, Own Close]
                                       (bar1, counter_iter 0)))))"
    by blast
  with s2 rwd
  have after:
    "finally_runs (snd (interleave [Own Next, ?c, Own Close] (bar1, counter_iter 0))) = 1
      \<and> is_done (store (fst (interleave [Own Next, ?c, Own Close] (bar1, counter_iter 0))) 0)
      \<and> 0 \<notin> set (counters (fst (interleave [Own Next, ?c, Own Close]
                                    (bar1, counter_iter 0))))"
    by blast
  from fresh_bar_init bar1_reached h1 f2 s1 s2 during after show ?thesis by blast
qed

section \<open>Leaving the ProgressBar\<close>






lemma hook_part_cleanup: "hook_part (snd (cleanup s r)) = hook_part s"
  by (simp add: hook_part_def cleanup_def Let_def)

lemma app_cleanup: "app (snd (cleanup s r)) = app s"
  by (simp add: cleanup_def Let_def)

lemma hook_part_invalidate: "hook_part (snd (invalidate s)) = hook_part s"
  by (simp add: hook_part_def invalidate_def split: option.splits)

lemma app_invalidate: "app (snd (invalidate s)) = app s"
  by (simp add: invalidate_def split: option.splits)

lemma hook_part_leave_try: "hook_part (fst (snd (leave_try p s g))) = hook_part s"
  by (simp add: leave_try_state hook_part_cleanup)

lemma app_leave_try: "app (fst (snd (leave_try p s g))) = app s"
  by (simp add: leave_try_state app_cleanup)

lemma frame_loop_turn:
  "hook_part (fst (snd (loop_turn d k s g))) = hook_part s"
  "app (fst (snd (loop_turn d k s g))) = app s"
proof -
  let ?s1 = "s\<lparr>store := (store s)(self g := advance (store s (self g)))\<rparr>"
  obtain r s2 where i: "invalidate ?s1 = (r, s2)" by (cases "invalidate ?s1")
  have h: "hook_part s2 = hook_part s"
    using hook_part_invalidate [of ?s1] i by (simp add: hook_part_def)
  have a: "app s2 = app s"
    using app_invalidate [of ?s1] i by simp
  show "hook_part (fst (snd (loop_turn d k s g))) = hook_part s"
    using i h
    by (cases "feed d k"; cases r)
       (simp_all add: loop_turn_def Let_def hook_part_leave_try)
  show "app (fst (snd (loop_turn d k s g))) = app s"
    using i a
    by (cases "feed d k"; cases r)
       (simp_all add: loop_turn_def Let_def app_leave_try)
qed

lemma frame_gen_next:
  "hook_part (fst (snd (gen_next s g))) = hook_part s"
  "app (fst (snd (gen_next s g))) = app s"
  by (simp_all add: gen_next_def hook_part_leave_try app_leave_try frame_loop_turn
        split: gen_status.splits option.splits)

lemma frame_gen_close:
  "hook_part (fst (snd (gen_close s g))) = hook_part s"
  "app (fst (snd (gen_close s g))) = app s"
proof -
  obtain r s' where c: "cleanup s (self g) = (r, s')" by (cases "cleanup s (self g)")
  have h: "hook_part s' = hook_part s" using hook_part_cleanup [of s "self g"] c by simp
  have a: "app s' = app s" using app_cleanup [of s "self g"] c by simp
  show "hook_part (fst (snd (gen_close s g))) = hook_part s"
    using c h by (cases "status g") (simp_all add: gen_close_def)
  show "app (fst (snd (gen_close s g))) = app s"
    using c a by (cases "status g") (simp_all add: gen_close_def)
qed

lemma frame_call:
  "hook_part (snd (ProgressBar_call s now d lbl rwd tot)) = hook_part s"
  "app (snd (ProgressBar_call s now d lbl rwd tot)) = app s"
  by (cases "ProgressBarCounter_init now d lbl rwd tot";
      simp add: ProgressBar_call_def hook_part_def)+



lemma app_set_apply_op: "app s \<noteq> None \<Longrightarrow> app (apply_op x s) \<noteq> None"
proof (cases x)
  case (Enter p m)
  then show ?thesis by (simp add: ProgressBar_enter_def Let_def)
next
  case (RenderThread st)
  assume "app s \<noteq> None"
  with RenderThread show ?thesis by (auto simp: render_thread_step_def)
next
  case Exit
  assume "app s \<noteq> None"
  with Exit show ?thesis
    by (auto simp: ProgressBar_exit_def Application_exit_def signal_signal_def
        remove_signal_handler_def thread_join_def Let_def)
qed (simp_all add: frame_call app_invalidate frame_gen_next frame_gen_close)

lemma app_set_run: "app s \<noteq> None \<Longrightarrow> app (run ops s) \<noteq> None"
proof (induction ops arbitrary: s)
  case Nil
  then show ?case by simp
next
  case (Cons x xs)
  from app_set_apply_op [OF Cons.prems] have "app (apply_op x s) \<noteq> None" .
  from Cons.IH [OF this] show ?case by simp
qed

lemma app_set_enter: "app (ProgressBar_enter p m s) \<noteq> None"
  by (simp add: ProgressBar_enter_def Let_def)








section \<open>What can raise\<close>

lemma once_bar_fields:
  "counters once_bar = [0]" "remove_when_done (store once_bar 0)" "data (store once_bar 0) = None"
  by (simp_all add: once_bar_def entered_bar_def fresh_bar_def ProgressBar_enter_def Let_def
      ProgressBar_call_def ProgressBarCounter_init_def py_len_def)

lemma once_bar_next:
  "gen_next once_bar (counter_iter 0)
     = (StopIteration,
        once_bar\<lparr>store := (store once_bar)(0 := (store once_bar 0)\<lparr>is_done := True\<rparr>),
                 counters := []\<rparr>,
        \<lparr>self = 0, status = Finished, finally_runs = Suc 0\<rparr>)"
  by (simp add: gen_next_def counter_iter_def leave_try_def cleanup_def Let_def
        once_bar_fields)

text \<open>
  C6, as stated, fails in three reachable states: before \<^verbatim>\<open>__enter__\<close> the attribute
  \<^verbatim>\<open>app\<close> does not exist and \<^verbatim>\<open>invalidate\<close> raises AttributeError; the
  cleanup of a counter with \<^verbatim>\<open>remove_when_done\<close> that is iterated a second time
  raises ValueError, the counter being no longer in the registry; and \<^verbatim>\<open>time_left\<close>
  raises OverflowError when its estimate is beyond the range of a \<^verbatim>\<open>timedelta\<close>.
\<close>

theorem nothing_raises_counterexample:
  "ProgressBar_init True SIG_DFL = Inr fresh_bar
   \<and> fst (invalidate fresh_bar) = Inl AttributeError
   \<and> fst (ProgressBar_call entered_bar 0 None ''x'' True None) = Inr 0
   \<and> fst (gen_next (fst (drive [Next] (once_bar, counter_iter 0))) (counter_iter 0))
       = Propagates ValueError
   \<and> fst (cleanup (fst (drive [Next] (once_bar, counter_iter 0))) 0) = Inl ValueError
   \<and> time_left (advance big0) 1000000 = Inl OverflowError"
proof -
  have a: "fst (invalidate fresh_bar) = Inl AttributeError"
    by (simp add: invalidate_def fresh_bar_def)
  have b: "fst (ProgressBar_call entered_bar 0 None ''x'' True None) = Inr 0"
    by (simp add: entered_bar_def fresh_bar_def ProgressBar_enter_def Let_def
      ProgressBar_call_def ProgressBarCounter_init_def py_len_def)
  have c: "fst (cleanup (fst (drive [Next] (once_bar, counter_iter 0))) 0) = Inl ValueError"
    by (simp add: once_bar_next cleanup_def Let_def once_bar_fields)
  have d: "fst (gen_next (fst (drive [Next] (once_bar, counter_iter 0))) (counter_iter 0))
       = Propagates ValueError"
    by (simp add: once_bar_next once_bar_fields)
       (simp add: gen_next_def leave_try_def counter_iter_def cleanup_def Let_def
          once_bar_fields)
  from fresh_bar_init a b c d time_left_big show ?thesis by blast
qed

lemma invalidate_entered: "app t \<noteq> None \<Longrightarrow> fst (invalidate t) = Inr ()"
  by (auto simp: invalidate_def)

text \<open>
  C6, amended. The getter \<open>percentage\<close> never raises, \<open>time_elapsed\<close> is a subtraction
  and has no failing branch, and \<open>time_left\<close> raises nothing but OverflowError;
  \<open>invalidate\<close> never raises once \<^verbatim>\<open>__enter__\<close> has run, whatever has happened
  since; the cleanup never raises for a counter that is in the registry or has
  \<^verbatim>\<open>remove_when_done\<close> off.
\<close>

theorem getters_never_raise:
  "(\<exists>q. percentage c = Inr q)
   \<and> (\<forall>e. time_left c now = Inl e \<longrightarrow> e = OverflowError)
   \<and> (app s \<noteq> None \<longrightarrow> fst (invalidate s) = Inr ())
   \<and> fst (invalidate (run ops (ProgressBar_enter p m s))) = Inr ()
   \<and> (r \<in> set (counters s) \<or> \<not> remove_when_done (store s r) \<longrightarrow> fst (cleanup s r) = Inr ())"
proof -
  obtain q where q: "percentage c = Inr q"
    using percentage_value [of c] by blast
  have 1: "\<exists>q. percentage c = Inr q" using q by blast
  have 2: "\<forall>e. time_left c now = Inl e \<longrightarrow> e = OverflowError"
    using time_left_value [OF q, of now] by (auto split: if_splits)
  have 3: "app s \<noteq> None \<longrightarrow> fst (invalidate s) = Inr ()"
    using invalidate_entered by blast
  have 4: "fst (invalidate (run ops (ProgressBar_enter p m s))) = Inr ()"
    by (rule invalidate_entered) (rule app_set_run [OF app_set_enter])
  have 5: "r \<in> set (counters s) \<or> \<not> remove_when_done (store s r) \<longrightarrow> fst (cleanup s r) = Inr ()"
    by (auto simp: cleanup_def Let_def)
  from 1 2 3 4 5 show ?thesis by blast
qed

theorem getters_never_raise_witness:
  "percentage c25 = Inr 25 \<and> time_left c25 16 = Inr (Some 18)
   \<and> time_left (advance big0) 1000000 = Inl OverflowError
   \<and> app bar1 \<noteq> None \<and> fst (invalidate bar1) = Inr ()
   \<and> fst (invalidate (run [Call 0 None ''x'' True None, Exit]
                         (ProgressBar_enter True True fresh_bar))) = Inr ()
   \<and> 0 \<in> set (counters bar1) \<and> fst (cleanup bar1 0) = Inr ()"
proof -
  note t = getters_never_raise [of c25 16 bar1 "[Call 0 None ''x'' True None, Exit]"
      True True 0]
  note u = getters_never_raise [of c25 16 fresh_bar "[Call 0 None ''x'' True None, Exit]"
      True True 0]
  have a: "app bar1 \<noteq> None" by (simp add: app_bar1)
  have r: "0 \<in> set (counters bar1)" by (simp add: counters_bar1)
  from t have "app bar1 \<noteq> None \<longrightarrow> fst (invalidate bar1) = Inr ()" by blast
  with a have i: "fst (invalidate bar1) = Inr ()" by blast
  from u have j: "fst (invalidate (run [Call 0 None ''x'' True None, Exit]
                         (ProgressBar_enter True True fresh_bar))) = Inr ()" by blast
  from t have "0 \<in> set (counters bar1) \<or> \<not> remove_when_done (store bar1 0) \<longrightarrow>
      fst (cleanup bar1 0) = Inr ()" by blast
  with r have c: "fst (cleanup bar1 0) = Inr ()" by blast
  from percentage_c25 time_left_c25 time_left_big a i j r c show ?thesis by blast
qed

section \<open>Counters without a data source\<close>

lemma idle_init: "ProgressBar_init p h = Inr s \<Longrightarrow> idle_at_zero s"
  by (auto simp: ProgressBar_init_def idle_at_zero_def split: if_splits)

lemma store_cleanup:
  "store (snd (cleanup s r)) = (store s)(r := (store s r)\<lparr>is_done := True\<rparr>)"
  by (simp add: cleanup_def Let_def)

lemma idle_cleanup: "idle_at_zero s \<Longrightarrow> idle_at_zero (snd (cleanup s r))"
  by (simp add: idle_at_zero_def store_cleanup)

lemma idle_leave_try: "idle_at_zero s \<Longrightarrow> idle_at_zero (fst (snd (leave_try p s g)))"
  by (simp add: leave_try_state idle_cleanup)

lemma store_invalidate: "store (snd (invalidate s)) = store s"
  by (simp add: invalidate_def split: option.splits)

lemma idle_loop_turn:
  assumes "idle_at_zero s" and "data (store s (self g)) \<noteq> None"
  shows "idle_at_zero (fst (snd (loop_turn d k s g)))"
proof (cases "feed d k")
  case (Item x)
  let ?s1 = "s\<lparr>store := (store s)(self g := advance (store s (self g)))\<rparr>"
  obtain r s2 where i: "invalidate ?s1 = (r, s2)" by (cases "invalidate ?s1")
  have "idle_at_zero ?s1"
    using assms by (simp add: idle_at_zero_def advance_def)
  moreover have "store s2 = store ?s1" using store_invalidate [of ?s1] i by simp
  ultimately have z: "idle_at_zero s2" by (simp add: idle_at_zero_def)
  show ?thesis
  proof (cases r)
    case (Inl e)
    with Item i show ?thesis by (simp add: loop_turn_def Let_def idle_leave_try [OF z])
  next
    case (Inr u)
    with Item i z show ?thesis by (simp add: loop_turn_def Let_def)
  qed
next
  case Exhausted
  with assms(1) show ?thesis by (simp add: loop_turn_def idle_leave_try)
next
  case (Raises e)
  with assms(1) show ?thesis by (simp add: loop_turn_def idle_leave_try)
qed

lemma idle_gen_next: "idle_at_zero s \<Longrightarrow> idle_at_zero (fst (snd (gen_next s g)))"
  by (auto simp: gen_next_def idle_leave_try idle_loop_turn
        split: gen_status.splits option.splits)

lemma idle_gen_close: "idle_at_zero s \<Longrightarrow> idle_at_zero (fst (snd (gen_close s g)))"
proof (cases "status g")
  case (Suspended k)
  assume z: "idle_at_zero s"
  obtain r s' where c: "cleanup s (self g) = (r, s')" by (cases "cleanup s (self g)")
  with idle_cleanup [OF z, of "self g"] have "idle_at_zero s'" by simp
  with c Suspended show ?thesis by (simp add: gen_close_def)
qed (simp_all add: gen_close_def)

lemma idle_call: "idle_at_zero s \<Longrightarrow> idle_at_zero (snd (ProgressBar_call s now d lbl rwd tot))"
  by (cases "ProgressBarCounter_init now d lbl rwd tot")
     (auto simp: ProgressBar_call_def idle_at_zero_def ProgressBarCounter_init_def Let_def
        split: option.splits sum.splits if_splits)

lemma idle_apply_op: "idle_at_zero s \<Longrightarrow> idle_at_zero (apply_op x s)"
proof (cases x)
  case (Enter p m)
  assume "idle_at_zero s"
  with Enter show ?thesis by (simp add: idle_at_zero_def ProgressBar_enter_def Let_def)
next
  case (RenderThread st)
  assume "idle_at_zero s"
  with RenderThread show ?thesis
    by (simp add: idle_at_zero_def render_thread_step_def split: option.splits)
next
  case Invalidate
  assume "idle_at_zero s"
  with Invalidate show ?thesis by (simp add: idle_at_zero_def store_invalidate)
next
  case Exit
  assume "idle_at_zero s"
  with Exit show ?thesis by (simp add: idle_at_zero_def exit_registry)
qed (simp_all add: idle_call idle_gen_next idle_gen_close)

lemma idle_run: "idle_at_zero s \<Longrightarrow> idle_at_zero (run ops s)"
proof (induction ops arbitrary: s)
  case Nil
  then show ?case by simp
next
  case (Cons x xs)
  from idle_apply_op [OF Cons.prems] have "idle_at_zero (apply_op x s)" .
  from Cons.IH [OF this] show ?case by simp
qed

lemma drive_ended: "ended r rwd sg \<Longrightarrow> drive as sg = sg"
  by (induction as) (simp_all add: act_ended)


lemma idle_next:
  assumes "r \<in> set (counters s)" and "distinct (counters s)" and "data (store s r) = None"
  shows "gen_next s (counter_iter r)
           = (StopIteration,
              s\<lparr>store := (store s)(r := (store s r)\<lparr>is_done := True\<rparr>),
                counters := (if remove_when_done (store s r)
                             then remove1 r (counters s) else counters s)\<rparr>,
              \<lparr>self = r, status = Finished, finally_runs = Suc 0\<rparr>)"
  using assms
  by (simp add: gen_next_def counter_iter_def leave_try_def cleanup_registered)

text \<open>
  C10, as stated, fails for a counter created without data but with an explicit total:
  its total is that number, not unknown.
\<close>

theorem idle_counter_iteration_counterexample:
  "fst (ProgressBar_call entered_bar 0 None ''t'' False (Some 5)) = Inr 0
   \<and> data (store (snd (ProgressBar_call entered_bar 0 None ''t'' False (Some 5))) 0) = None
   \<and> total (store (snd (ProgressBar_call entered_bar 0 None ''t'' False (Some 5))) 0) = Some 5"
  by (simp add: entered_bar_def fresh_bar_def ProgressBar_enter_def Let_def
      ProgressBar_call_def ProgressBarCounter_init_def)

text \<open>
  C10, amended. A call without a data source registers a counter without data, whose
  total is the explicit total when one is given and unknown otherwise. Take any state the
  ProgressBar can reach and a counter without data that is in its registry. The first
  \<^verbatim>\<open>next()\<close> on its wrapper yields nothing and ends the iteration, and any further
  \<^verbatim>\<open>next()\<close> or \<^verbatim>\<open>close()\<close> changes nothing; the \<^verbatim>\<open>finally\<close> block has
  run once, the counter is done, with \<^verbatim>\<open>remove_when_done\<close> it is out of the
  registry and without it the registry is as before; its total is unchanged, its current
  value is 0 and its percentage is 0.
\<close>

theorem idle_counter_iteration:
  assumes "ProgressBar_init p h = Inr s0" and "s = run ops s0"
    and "r \<in> set (counters s)" and "data (store s r) = None"
  shows "fst (gen_next s (counter_iter r)) = StopIteration
       \<and> drive (Next # as) (s, counter_iter r) = snd (gen_next s (counter_iter r))
       \<and> status (snd (snd (gen_next s (counter_iter r)))) = Finished
       \<and> finally_runs (snd (snd (gen_next s (counter_iter r)))) = 1
       \<and> is_done (store (fst (snd (gen_next s (counter_iter r)))) r)
       \<and> counters (fst (snd (gen_next s (counter_iter r))))
           = (if remove_when_done (store s r) then remove1 r (counters s) else counters s)
       \<and> (remove_when_done (store s r) \<longrightarrow>
            r \<notin> set (counters (fst (snd (gen_next s (counter_iter r))))))
       \<and> total (store (fst (snd (gen_next s (counter_iter r)))) r) = total (store s r)
       \<and> current (store (fst (snd (gen_next s (counter_iter r)))) r) = 0
       \<and> percentage (store (fst (snd (gen_next s (counter_iter r)))) r) = Inr 0
       \<and> fst (ProgressBar_call s now None lbl rwd tot) = Inr (next_ref s)
       \<and> next_ref s \<in> set (counters (snd (ProgressBar_call s now None lbl rwd tot)))
       \<and> data (store (snd (ProgressBar_call s now None lbl rwd tot)) (next_ref s)) = None
       \<and> total (store (snd (ProgressBar_call s now None lbl rwd tot)) (next_ref s)) = tot"
proof -
  have dist: "distinct (counters s)"
    using reachable_distinct [OF assms(1), of ops] assms(2) by simp
  have "idle_at_zero s"
    using idle_run [OF idle_init [OF assms(1)], of ops] assms(2) by simp
  with assms(4) have cur: "current (store s r) = 0" by (simp add: idle_at_zero_def)
  note n = idle_next [OF assms(3) dist assms(4)]
  let ?sg = "snd (gen_next s (counter_iter r))"
  have 1: "fst (gen_next s (counter_iter r)) = StopIteration" by (simp add: n)
  have e: "ended r (remove_when_done (store s r)) ?sg"
    using assms(3) dist by (simp add: n ended_def)
  have 2: "drive (Next # as) (s, counter_iter r) = ?sg"
    using drive_ended [OF e, of as] by simp
  have 3: "status (snd ?sg) = Finished" by (simp add: n)
  have 4: "finally_runs (snd ?sg) = 1" by (simp add: n)
  have 5: "is_done (store (fst ?sg) r)" by (simp add: n)
  have 6: "counters (fst ?sg)
           = (if remove_when_done (store s r) then remove1 r (counters s) else counters s)"
    by (simp add: n)
  have 7: "remove_when_done (store s r) \<longrightarrow> r \<notin> set (counters (fst ?sg))"
    using dist by (simp add: n)
  have 8: "total (store (fst ?sg) r) = total (store s r)" by (simp add: n)
  have 9: "current (store (fst ?sg) r) = 0" using cur by (simp add: n)
  have 10: "percentage (store (fst ?sg) r) = Inr 0"
    using 9 by (simp add: percentage_value split: option.splits)
  have i: "ProgressBarCounter_init now (None :: 'a iterable option) lbl rwd tot
             = Inr \<lparr>start_time = now, data = None, current = 0, label = lbl,
                    remove_when_done = rwd, is_done = False, total = tot\<rparr>"
    by (cases tot) (simp_all add: ProgressBarCounter_init_def py_len_def)
  have 11: "fst (ProgressBar_call s now None lbl rwd tot) = Inr (next_ref s)"
    by (simp add: ProgressBar_call_def i)
  have 12: "next_ref s \<in> set (counters (snd (ProgressBar_call s now None lbl rwd tot)))"
    by (simp add: ProgressBar_call_def i)
  have 13: "data (store (snd (ProgressBar_call s now None lbl rwd tot)) (next_ref s)) = None"
    by (simp add: ProgressBar_call_def i)
  have 14: "total (store (snd (ProgressBar_call s now None lbl rwd tot)) (next_ref s)) = tot"
    by (simp add: ProgressBar_call_def i)
  from 1 2 3 4 5 6 7 8 9 10 11 12 13 14 show ?thesis by simp
qed

lemma once_bar_reached:
  "once_bar = run [Enter True True, Call 0 None ''x'' True None] fresh_bar"
  by (simp add: once_bar_def entered_bar_def)

theorem idle_counter_iteration_witness:
  "ProgressBar_init True SIG_DFL = Inr fresh_bar
   \<and> once_bar = run [Enter True True, Call 0 None ''x'' True None] fresh_bar
   \<and> 0 \<in> set (counters once_bar) \<and> data (store once_bar 0) = None
   \<and> fst (gen_next once_bar (counter_iter 0)) = StopIteration
   \<and> drive [Next, Next, Close] (once_bar, counter_iter 0)
       = snd (gen_next once_bar (counter_iter 0))
   \<and> finally_runs (snd (snd (gen_next once_bar (counter_iter 0)))) = 1
   \<and> is_done (store (fst (snd (gen_next once_bar (counter_iter 0)))) 0)
   \<and> counters (fst (snd (gen_next once_bar (counter_iter 0)))) = []
   \<and> percentage (store (fst (snd (gen_next once_bar (counter_iter 0)))) 0) = Inr 0"
proof -
  have m: "0 \<in> set (counters once_bar)" by (simp add: once_bar_fields)
  note d = once_bar_fields(3)
  note t = idle_counter_iteration [OF fresh_bar_init once_bar_reached m d,
      of "[Next, Close]" 0 "[]" False None]
  from t have a: "fst (gen_next once_bar (counter_iter 0)) = StopIteration" by blast
  from t have b: "drive [Next, Next, Close] (once_bar, counter_iter 0)
       = snd (gen_next once_bar (counter_iter 0))" by blast
  from t have c: "finally_runs (snd (snd (gen_next once_bar (counter_iter 0)))) = 1" by blast
  from t have e: "is_done (store (fst (snd (gen_next once_bar (counter_iter 0)))) 0)" by blast
  from t have "counters (fst (snd (gen_next once_bar (counter_iter 0))))
           = (if remove_when_done (store once_bar 0) then remove1 0 (counters once_bar)
              else counters once_bar)" by blast
  then have f: "counters (fst (snd (gen_next once_bar (counter_iter 0)))) = []"
    by (simp add: once_bar_fields)
  from t have g: "percentage (store (fst (snd (gen_next once_bar (counter_iter 0)))) 0) = Inr 0"
    by blast
  from fresh_bar_init once_bar_reached m d a b c e f g show ?thesis by blast
qed

end
